theory Spec2Isabelle
  imports Main "HOL-Library.Word" "HOL-Library.Sublist"
begin

unbundle bit_operations_syntax

section \<open>Bytes and Python helpers\<close>

text \<open>
  A Python \<open>bytes\<close> object is a sequence of integers in \<open>0..255\<close>: a list of 8-bit words.
  Indexing a \<open>bytes\<close> object or iterating over it gives a Python \<open>int\<close>, read here
  with \<open>uint\<close>. Python integers are unbounded: \<open>int\<close>.
\<close>

type_synonym byte = "8 word"
type_synonym bytes = "byte list"

datatype error = StructError | ValueError | ZeroDivisionError | OverflowError

text \<open>The slice \<open>xs[i:j]\<close> for indices \<open>0 \<le> i\<close>, \<open>0 \<le> j\<close>; it never raises.\<close>

definition slice :: "'a list \<Rightarrow> nat \<Rightarrow> nat \<Rightarrow> 'a list" where
  "slice xs i j = take (j - i) (drop i xs)"

text \<open>
  \<open>bytes.find(sub)\<close>: the lowest index at which \<open>sub\<close> occurs, \<open>-1\<close> when it does
  not occur. \<open>bytes_find_from i\<close> scans a buffer whose first byte has index \<open>i\<close>.
\<close>

fun bytes_find_from :: "nat \<Rightarrow> bytes \<Rightarrow> bytes \<Rightarrow> int" where
  "bytes_find_from i sub [] = (if sub = [] then int i else - 1)"
| "bytes_find_from i sub (b # bs) =
     (if take (length sub) (b # bs) = sub then int i else bytes_find_from (Suc i) sub bs)"

definition bytes_find :: "bytes \<Rightarrow> bytes \<Rightarrow> int" where
  "bytes_find buffer sub = bytes_find_from 0 sub buffer"

text \<open>\<open>bytes([n])\<close>: a ValueError unless \<open>n\<close> is in \<open>range(256)\<close>.\<close>

definition bytes_of_int :: "int \<Rightarrow> error + bytes" where
  "bytes_of_int n = (if 0 \<le> n \<and> n < 256 then Inr [word_of_int n] else Inl ValueError)"

text \<open>
  \<open>struct.pack('<2sBH', header, cmd, length)\<close>: the two header bytes, one unsigned byte
  and one little-endian unsigned 16-bit value, without padding; \<open>struct.error\<close> when
  \<open>cmd\<close> or \<open>length\<close> is out of the range of its field.
\<close>

definition pack_2sBH :: "bytes \<Rightarrow> int \<Rightarrow> nat \<Rightarrow> error + bytes" where
  "pack_2sBH hdr cmd len =
     (if 0 \<le> cmd \<and> cmd < 256 \<and> len < 65536
      then Inr (take 2 hdr @ replicate (2 - length hdr) 0
                @ [word_of_int cmd, word_of_nat (len mod 256), word_of_nat (len div 256)])
      else Inl StructError)"

text \<open>\<open>struct.unpack('<H', b)[0]\<close> on the two bytes \<open>b\<close>.\<close>

definition unpack_H :: "bytes \<Rightarrow> nat" where
  "unpack_H b = unat (b ! 0) + 256 * unat (b ! 1)"

section \<open>Protocol constants\<close>

definition CMD_AUDIO_DATA :: int where "CMD_AUDIO_DATA = 0x03"
definition CMD_START_PLAY :: int where "CMD_START_PLAY = 0x04"
definition CMD_STOP_PLAY :: int where "CMD_STOP_PLAY = 0x05"
definition CMD_HANDSHAKE :: int where "CMD_HANDSHAKE = 0x06"
definition CMD_ACK :: int where "CMD_ACK = 0x07"
definition CMD_SET_FORMAT :: int where "CMD_SET_FORMAT = 0x08"

definition AUDIO_FORMAT_PCM :: int where "AUDIO_FORMAT_PCM = 0x00"
definition AUDIO_FORMAT_MP3 :: int where "AUDIO_FORMAT_MP3 = 0x01"


definition FRAME_HEADER :: bytes where
  "FRAME_HEADER = [0xAA, 0x55]"

section \<open>Frame codec\<close>

text \<open>
  \<open>calc_checksum\<close>: the accumulator starts at \<open>0\<close> and is XORed with every byte in turn.
\<close>

fun calc_checksum_loop :: "int \<Rightarrow> bytes \<Rightarrow> int" where
  "calc_checksum_loop checksum [] = checksum"
| "calc_checksum_loop checksum (b # data) = calc_checksum_loop (checksum XOR uint b) data"

definition calc_checksum :: "bytes \<Rightarrow> int" where
  "calc_checksum data = calc_checksum_loop 0 data"

text \<open>
  The XOR-reduction of a byte sequence as the specification words it: the fold of XOR
  over the bytes, \<open>0\<close> for the empty sequence.
\<close>

definition xor_fold :: "bytes \<Rightarrow> int" where
  "xor_fold data = foldr (\<lambda>b r. uint b XOR r) data 0"

text \<open>
  The frame that \<open>send_frame\<close> builds before it writes it to the port
  (\<open>length\<close>, \<open>header\<close>, \<open>checksum\<close>, \<open>frame\<close>).
\<close>

definition build_frame :: "int \<Rightarrow> bytes \<Rightarrow> error + bytes" where
  "build_frame cmd data =
     (case pack_2sBH FRAME_HEADER cmd (length data) of
        Inl e \<Rightarrow> Inl e
      | Inr header \<Rightarrow>
          (let checksum = calc_checksum (drop 2 header @ data)
           in case bytes_of_int checksum of
                Inl e \<Rightarrow> Inl e
              | Inr c \<Rightarrow> Inr (header @ data @ c)))"

section \<open>Stream parser\<close>

text \<open>What the tool prints on the console, one constructor for each message.\<close>

datatype msg =
    ChecksumError int int
  | RxError
  | AudioProgress nat
  | AckReceived int
  | UnknownCommand int
  | RecordStarted int
  | RecordInterrupted
  | RecordStopping
  | NoAudioData
  | WavSaved string nat
  | PlayInfo
  | FormatSet bool
  | SendingAudio
  | PlayProgress nat nat
  | SendDone

text \<open>
  \<open>parse_frame\<close> returns the pair of the source, \<open>(result, remaining_buffer)\<close>, where
  \<open>result\<close> is \<open>None\<close> or \<open>(cmd, data)\<close>, together with the messages it printed.
\<close>

definition parse_frame :: "bytes \<Rightarrow> (int \<times> bytes) option \<times> bytes \<times> msg list" where
  "parse_frame buffer0 =
     (let idx = bytes_find buffer0 FRAME_HEADER in
      if idx < 0 then (None, (if buffer0 \<noteq> [] then [last buffer0] else []), [])
      else
        let buffer = drop (nat idx) buffer0 in
        if length buffer < 6 then (None, buffer, [])
        else
          let cmd = uint (buffer ! 2);
              len = unpack_H (slice buffer 3 5);
              frame_len = 5 + len + 1
          in
          if length buffer < frame_len then (None, buffer, [])
          else
            let data = slice buffer 5 (5 + len);
                checksum = uint (buffer ! (5 + len));
                calc = calc_checksum (slice buffer 2 (5 + len))
            in
            if checksum \<noteq> calc then (None, drop 2 buffer, [ChecksumError calc checksum])
            else (Some (cmd, data), drop frame_len buffer, []))"

section \<open>Tool state and frame dispatcher\<close>

text \<open>
  A WAV file as the external writer receives it: the three parameters set through
  \<open>setnchannels\<close>, \<open>setsampwidth\<close>, \<open>setframerate\<close> and the sample bytes.
\<close>

record wav_file =
  nchannels :: nat
  sampwidth :: nat
  framerate :: nat
  wav_frames :: bytes

text \<open>
  The tool object and the world it acts on. \<open>serial\<close> is \<open>None\<close> while no port is
  open, otherwise the frames written to the port so far, one entry for each call of
  \<open>serial.write\<close>. \<open>console\<close> collects what is printed, \<open>files\<close> is the file
  system the WAV writer writes to. \<open>handled\<close> is a history variable: the arguments of
  every call of \<open>handle_frame\<close>, in order.
\<close>

record tool =
  serial :: "bytes list option"
  running :: bool
  audio_data :: bytes
  console :: "msg list"
  files :: "string \<rightharpoonup> wav_file"
  handled :: "(int \<times> bytes) list"

definition print :: "tool \<Rightarrow> msg list \<Rightarrow> tool" where
  "print st out = st\<lparr>console := console st @ out\<rparr>"

definition handle_frame :: "tool \<Rightarrow> int \<Rightarrow> bytes \<Rightarrow> tool" where
  "handle_frame st0 cmd data =
     (let st = st0\<lparr>handled := handled st0 @ [(cmd, data)]\<rparr> in
      if cmd = CMD_AUDIO_DATA then
        (let st' = st\<lparr>audio_data := audio_data st @ data\<rparr>
         in print st' [AudioProgress (length (audio_data st'))])
      else if cmd = CMD_ACK then
        (if length data > 0 then print st [AckReceived (uint (data ! 0))] else st)
      else print st [UnknownCommand cmd])"

section \<open>Reader task\<close>

lemma parse_frame_remaining_length:
  "parse_frame buffer = (result, remaining, out) \<Longrightarrow>
     result \<noteq> None \<Longrightarrow> length remaining + 6 \<le> length buffer"
  by (auto simp: parse_frame_def Let_def split: if_splits)

lemma parse_frame_Some_shorter:
  "parse_frame buffer = (Some f, remaining, out) \<Longrightarrow> length remaining < length buffer"
  using parse_frame_remaining_length [of buffer "Some f" remaining out] by simp

text \<open>
  The inner \<open>while True\<close> loop of \<open>rx_loop\<close>: parse, leave at the first \<open>None\<close>,
  otherwise hand the frame to \<open>handle_frame\<close> and parse again. It returns the tool
  and the buffer that the next read extends.
\<close>

function drain :: "tool \<Rightarrow> bytes \<Rightarrow> tool \<times> bytes" where
  "drain st buffer =
     (case parse_frame buffer of
        (None, buffer', out) \<Rightarrow> (print st out, buffer')
      | (Some (cmd, frame_data), buffer', out) \<Rightarrow>
          drain (handle_frame (print st out) cmd frame_data) buffer')"
  by pat_completeness auto
termination
  by (relation "measure (\<lambda>(st, buffer). length buffer)")
     (auto dest: parse_frame_Some_shorter [OF sym])

text \<open>The same loop, allowed at most \<open>n\<close> passes: \<open>None\<close> when they do not suffice.\<close>

fun drain_within :: "nat \<Rightarrow> tool \<Rightarrow> bytes \<Rightarrow> (tool \<times> bytes) option" where
  "drain_within 0 st buffer = None"
| "drain_within (Suc n) st buffer =
     (case parse_frame buffer of
        (None, buffer', out) \<Rightarrow> Some (print st out, buffer')
      | (Some (cmd, frame_data), buffer', out) \<Rightarrow>
          drain_within n (handle_frame (print st out) cmd frame_data) buffer')"

text \<open>
  The outcome of one \<open>serial.read(1024)\<close> in \<open>rx_loop\<close>: the bytes read (none
  on a timeout), or an exception. The outer loop tests \<open>running\<close> before every read.
  The controller clears the flag from its own thread: the list of outcomes is the list
  of the reads made until then, and \<open>rx_loop_from\<close> is the loop from a given buffer on.
\<close>

datatype read_event = ReadData bytes | ReadFault

fun rx_loop_from :: "tool \<Rightarrow> bytes \<Rightarrow> read_event list \<Rightarrow> tool" where
  "rx_loop_from st buffer [] = st"
| "rx_loop_from st buffer (event # reads) =
     (if \<not> running st then st
      else case event of
        ReadFault \<Rightarrow> (if running st then print st [RxError] else st)
      | ReadData data \<Rightarrow>
          if data \<noteq> [] then
            (case drain st (buffer @ data) of
               (st', buffer') \<Rightarrow> rx_loop_from st' buffer' reads)
          else rx_loop_from st buffer reads)"

definition rx_loop :: "tool \<Rightarrow> read_event list \<Rightarrow> tool" where
  "rx_loop st reads = rx_loop_from st [] reads"

section \<open>Session controller\<close>

definition send_frame :: "tool \<Rightarrow> int \<Rightarrow> bytes \<Rightarrow> error + (bool \<times> tool)" where
  "send_frame st cmd data =
     (case serial st of
        None \<Rightarrow> Inr (False, st)
      | Some written \<Rightarrow>
          (case build_frame cmd data of
             Inl e \<Rightarrow> Inl e
           | Inr frame \<Rightarrow> Inr (True, st\<lparr>serial := Some (written @ [frame])\<rparr>)))"


text \<open>
  The reader task runs in a thread of its own between its start and its \<open>join\<close>. It
  writes \<open>audio_data\<close> and the console, the controller writes the port and the flag,
  and the controller reads \<open>audio_data\<close> after the join only: the operations below run
  the reader at one point between start and join, which gives one of the possible
  orders of the console lines and the only possible value of everything else.
\<close>




text \<open>
  What \<open>load_audio_file\<close> returns: the tuple
  \<open>(frames, framerate, sample_width, channels, audio_format)\<close>.
\<close>

record loaded_audio =
  la_frames :: bytes
  la_framerate :: nat
  la_sample_width :: nat
  la_channels :: nat
  la_audio_format :: int

text \<open>
  The loop \<open>for i in range(0, len(frames), chunk_size)\<close>, from index \<open>i\<close> on.
  \<open>play_audio\<close> calls it with a chunk size of 512 or 1024 only; a step of \<open>0\<close>, which
  \<open>range\<close> rejects, does not occur, and the loop is left at once for it.
\<close>

function send_chunks :: "tool \<Rightarrow> bytes \<Rightarrow> nat \<Rightarrow> nat \<Rightarrow> nat \<Rightarrow> error + tool" where
  "send_chunks st frames chunk_size total_chunks i =
     (if 0 < chunk_size \<and> i < length frames then
        (case send_frame st CMD_AUDIO_DATA (slice frames i (i + chunk_size)) of
           Inl e \<Rightarrow> Inl e
         | Inr (_, st') \<Rightarrow>
             send_chunks (print st' [PlayProgress (i div chunk_size + 1) total_chunks])
               frames chunk_size total_chunks (i + chunk_size))
      else Inr st)"
  by pat_completeness auto
termination
  by (relation "measure (\<lambda>(st, frames, chunk_size, total_chunks, i). length frames - i)") auto

text \<open>
  \<open>play_audio\<close> on the result of \<open>load_audio_file\<close>. \<open>PlayInfo\<close> stands for the
  lines that describe the file; for PCM the last of them divides by
  \<open>framerate * channels * sample_width\<close>.
\<close>

definition play_audio :: "tool \<Rightarrow> loaded_audio option \<Rightarrow> read_event list \<Rightarrow> error + tool" where
  "play_audio st0 result reads =
     (case result of
        None \<Rightarrow> Inr st0
      | Some la \<Rightarrow>
          if la_audio_format la \<noteq> AUDIO_FORMAT_MP3
             \<and> la_framerate la * la_channels la * la_sample_width la = 0
          then Inl ZeroDivisionError
          else
            let st1 = (print st0 [PlayInfo])\<lparr>running := True\<rparr>;
                st2 = print st1 [FormatSet (la_audio_format la = AUDIO_FORMAT_MP3)]
            in case bytes_of_int (la_audio_format la) of
                 Inl e \<Rightarrow> Inl e
               | Inr tag \<Rightarrow>
            (case send_frame st2 CMD_SET_FORMAT tag of
               Inl e \<Rightarrow> Inl e
             | Inr (_, st3) \<Rightarrow>
            (case send_frame st3 CMD_START_PLAY [] of
               Inl e \<Rightarrow> Inl e
             | Inr (_, st4) \<Rightarrow>
                 let chunk_size = (if la_audio_format la = AUDIO_FORMAT_MP3 then 1024 else 512);
                     total_chunks = (length (la_frames la) + chunk_size - 1) div chunk_size;
                     st5 = print st4 [SendingAudio]
                 in case send_chunks st5 (la_frames la) chunk_size total_chunks 0 of
                      Inl e \<Rightarrow> Inl e
                    | Inr st6 \<Rightarrow>
                        (let st7 = print st6 [SendDone] in
                         case send_frame st7 CMD_STOP_PLAY [] of
                           Inl e \<Rightarrow> Inl e
                         | Inr (_, st8) \<Rightarrow> Inr ((rx_loop st8 reads)\<lparr>running := False\<rparr>)))))"

section \<open>Notions used to state the properties\<close>

text \<open>
  The tool as \<open>__init__\<close> leaves it, on an empty file system, and after a successful
  \<open>connect\<close>.
\<close>

definition new_tool :: tool where
  "new_tool = \<lparr>serial = None, running = False, audio_data = [], console = [],
               files = Map.empty, handled = []\<rparr>"

definition connected_tool :: tool where
  "connected_tool = new_tool\<lparr>serial := Some []\<rparr>"

text \<open>The inbound byte stream: the bytes that the reads deliver before the first fault.\<close>

fun inbound :: "read_event list \<Rightarrow> bytes" where
  "inbound [] = []"
| "inbound (ReadFault # reads) = []"
| "inbound (ReadData data # reads) = data @ inbound reads"

text \<open>
  The byte stream contains the encoding of \<open>(cmd, data)\<close>, a frame whose trailing byte
  equals the checksum of the bytes between the header marker and that byte: command,
  length bytes and payload.
\<close>

definition valid_frame_in :: "int \<Rightarrow> bytes \<Rightarrow> bytes \<Rightarrow> bool" where
  "valid_frame_in cmd data stream \<longleftrightarrow>
     (\<exists>frame pre post. build_frame cmd data = Inr frame \<and> stream = pre @ frame @ post
        \<and> uint (last frame) = calc_checksum (butlast (drop 2 frame)))"

text \<open>
  The payloads of the audio-data frames among the handled frames, concatenated in the
  order of their arrival.
\<close>

definition audio_of :: "(int \<times> bytes) list \<Rightarrow> bytes" where
  "audio_of hs = concat (map snd (filter (\<lambda>(cmd, data). cmd = CMD_AUDIO_DATA) hs))"

text \<open>
  What the reader task may change: it handles further frames and appends the payloads
  of the audio-data frames among them to \<open>audio_data\<close>; files, port and flag stay.
\<close>

definition rx_extends :: "tool \<Rightarrow> tool \<Rightarrow> bool" where
  "rx_extends st st' \<longleftrightarrow>
     (\<exists>new. handled st' = handled st @ new
        \<and> audio_data st' = audio_data st @ audio_of new)
     \<and> files st' = files st \<and> serial st' = serial st \<and> running st' = running st"

text \<open>
  The fixed-size chunks of a byte sequence: chunk \<open>k\<close> is the slice
  \<open>frames[k * chunk_size : k * chunk_size + chunk_size]\<close>, for \<open>k\<close> below the rounded-up
  quotient of the length by the chunk size.
\<close>

definition chunk_list :: "bytes \<Rightarrow> nat \<Rightarrow> bytes list" where
  "chunk_list frames chunk_size =
     map (\<lambda>k. slice frames (k * chunk_size) (k * chunk_size + chunk_size))
       [0..<(length frames + chunk_size - 1) div chunk_size]"

section \<open>Checksum\<close>

lemma calc_checksum_loop_word:
  "calc_checksum_loop (uint (a :: byte)) data = uint (foldl (XOR) a data)"
proof (induction data arbitrary: a)
  case Nil
  show ?case by simp
next
  case (Cons b data)
  have "uint a XOR uint b = uint (a XOR b)"
    by (simp add: uint_xor)
  then show ?case
    using Cons.IH [of "a XOR b"] by simp
qed

lemma calc_checksum_word: "calc_checksum data = uint (foldl (XOR) (0 :: byte) data)"
  using calc_checksum_loop_word [of 0 data] by (simp add: calc_checksum_def)

lemma calc_checksum_loop_xor:
  "calc_checksum_loop c data = c XOR calc_checksum_loop 0 data"
proof (induction data arbitrary: c)
  case Nil
  show ?case by simp
next
  case (Cons b data)
  show ?case
    using Cons.IH [of "c XOR uint b"] Cons.IH [of "uint b"]
    by (simp add: xor.assoc)
qed

lemma calc_checksum_Cons: "calc_checksum (b # data) = uint b XOR calc_checksum data"
  using calc_checksum_loop_xor [of "uint b" data] by (simp add: calc_checksum_def)

lemma calc_checksum_Nil: "calc_checksum [] = 0"
  by (simp add: calc_checksum_def)

lemma calc_checksum_append:
  "calc_checksum (xs @ ys) = calc_checksum xs XOR calc_checksum ys"
  by (induction xs) (simp_all add: calc_checksum_Cons calc_checksum_Nil xor.assoc)

lemma calc_checksum_range: "0 \<le> calc_checksum data \<and> calc_checksum data < 256"
proof -
  have "uint (foldl (XOR) (0 :: byte) data) < 2 ^ LENGTH(8)"
    by (rule uint_lt2p)
  then show ?thesis
    by (simp add: calc_checksum_word)
qed

section \<open>Searching for the header\<close>

lemma bytes_find_from_absent:
  assumes "\<not> (\<exists>pre post. buf = pre @ sub @ post)"
  shows "bytes_find_from i sub buf = - 1"
  using assms
proof (induction buf arbitrary: i)
  case Nil
  then show ?case by auto
next
  case (Cons b bs)
  have nt: "take (length sub) (b # bs) \<noteq> sub"
  proof
    assume "take (length sub) (b # bs) = sub"
    then have "b # bs = [] @ sub @ drop (length sub) (b # bs)"
      by (metis append_Nil append_take_drop_id)
    with Cons.prems show False by blast
  qed
  have "\<not> (\<exists>pre post. bs = pre @ sub @ post)"
  proof
    assume "\<exists>pre post. bs = pre @ sub @ post"
    then obtain pre post where "bs = pre @ sub @ post" by blast
    then have "b # bs = (b # pre) @ sub @ post" by simp
    with Cons.prems show False by blast
  qed
  then have "bytes_find_from (Suc i) sub bs = - 1"
    by (rule Cons.IH)
  with nt show ?case by simp
qed

lemma bytes_find_from_first:
  assumes "take (length sub) (drop n buf) = sub" "n \<le> length buf"
    and "\<forall>m<n. take (length sub) (drop m buf) \<noteq> sub"
  shows "bytes_find_from i sub buf = int (i + n)"
  using assms
proof (induction buf arbitrary: i n)
  case Nil
  then show ?case by auto
next
  case (Cons b bs)
  show ?case
  proof (cases n)
    case 0
    with Cons.prems show ?thesis by simp
  next
    case (Suc n')
    have nt: "take (length sub) (b # bs) \<noteq> sub"
      using Cons.prems(3) Suc by (metis drop0 zero_less_Suc)
    have a: "take (length sub) (drop n' bs) = sub" "n' \<le> length bs"
      using Cons.prems Suc by simp_all
    have b: "\<forall>m<n'. take (length sub) (drop m bs) \<noteq> sub"
    proof (intro allI impI)
      fix m assume "m < n'"
      then have "Suc m < n" using Suc by simp
      then have "take (length sub) (drop (Suc m) (b # bs)) \<noteq> sub"
        using Cons.prems(3) by blast
      then show "take (length sub) (drop m bs) \<noteq> sub" by simp
    qed
    have "bytes_find_from (Suc i) sub bs = int (Suc i + n')"
      using Cons.IH [OF a b] .
    with nt Suc show ?thesis by simp
  qed
qed

lemma bytes_find_from_found:
  assumes "bytes_find_from i sub buf \<noteq> - 1"
  shows "\<exists>n. bytes_find_from i sub buf = int (i + n) \<and> n \<le> length buf
            \<and> take (length sub) (drop n buf) = sub"
  using assms
proof (induction buf arbitrary: i)
  case Nil
  then show ?case by (auto split: if_splits)
next
  case (Cons b bs)
  show ?case
  proof (cases "take (length sub) (b # bs) = sub")
    case True
    then have "bytes_find_from i sub (b # bs) = int (i + 0) \<and> 0 \<le> length (b # bs)
         \<and> take (length sub) (drop 0 (b # bs)) = sub"
      by simp
    then show ?thesis by blast
  next
    case False
    then have e: "bytes_find_from i sub (b # bs) = bytes_find_from (Suc i) sub bs"
      by simp
    with Cons.prems have "bytes_find_from (Suc i) sub bs \<noteq> - 1" by simp
    from Cons.IH [OF this] obtain n where
      n: "bytes_find_from (Suc i) sub bs = int (Suc i + n)" "n \<le> length bs"
         "take (length sub) (drop n bs) = sub"
      by blast
    then have "bytes_find_from i sub (b # bs) = int (i + Suc n) \<and> Suc n \<le> length (b # bs)
         \<and> take (length sub) (drop (Suc n) (b # bs)) = sub"
      using e by simp
    then show ?thesis by blast
  qed
qed

section \<open>Encoding and parsing one frame\<close>

lemma bytes_find_header_0: "bytes_find (0xAA # 0x55 # rest) FRAME_HEADER = 0"
  by (simp add: bytes_find_def FRAME_HEADER_def)

lemma parse_frame_at_header:
  assumes len: "unat lo + 256 * unat hi = length data"
  shows "parse_frame ([0xAA, 0x55, c, lo, hi] @ data @ [k] @ S) =
     (if uint k \<noteq> calc_checksum ([c, lo, hi] @ data)
      then (None, [c, lo, hi] @ data @ [k] @ S,
            [ChecksumError (calc_checksum ([c, lo, hi] @ data)) (uint k)])
      else (Some (uint c, data), S, []))"
proof -
  define buf where "buf = [0xAA, 0x55, c, lo, hi] @ data @ [k] @ S"
  have find: "bytes_find buf FRAME_HEADER = 0"
    using bytes_find_header_0 [of "[c, lo, hi] @ data @ [k] @ S"] by (simp add: buf_def)
  have l: "unpack_H (slice buf 3 5) = length data"
    using len by (simp add: unpack_H_def slice_def buf_def)
  have d: "slice buf 5 (5 + length data) = data"
    by (simp add: slice_def buf_def)
  have k: "buf ! (5 + length data) = k"
    by (simp add: nth_append buf_def)
  have r: "slice buf 2 (5 + length data) = [c, lo, hi] @ data"
    by (simp add: slice_def numeral_3_eq_3 buf_def)
  have c: "buf ! 2 = c"
    by (simp add: buf_def)
  have dr: "drop (6 + length data) buf = S"
    by (simp add: eval_nat_numeral buf_def)
  have dr2: "drop 2 buf = [c, lo, hi] @ data @ [k] @ S"
    by (simp add: buf_def)
  have ln: "\<not> length buf < 6" "\<not> length buf < 6 + length data"
    by (simp_all add: buf_def)
  have "parse_frame buf =
     (if uint k \<noteq> calc_checksum ([c, lo, hi] @ data)
      then (None, [c, lo, hi] @ data @ [k] @ S,
            [ChecksumError (calc_checksum ([c, lo, hi] @ data)) (uint k)])
      else (Some (uint c, data), S, []))"
    by (simp add: parse_frame_def Let_def find l d k r c dr dr2 ln del: append.simps)
  then show ?thesis
    by (simp only: buf_def)
qed

lemma build_frame_ok:
  assumes "0 \<le> cmd" "cmd < 256" "length data < 65536"
  shows "build_frame cmd data =
     Inr ([0xAA, 0x55, word_of_int cmd, word_of_nat (length data mod 256),
           word_of_nat (length data div 256)] @ data @
          [word_of_int (calc_checksum ([word_of_int cmd, word_of_nat (length data mod 256),
                                        word_of_nat (length data div 256)] @ data))])"
  using assms calc_checksum_range [of "[word_of_int cmd, word_of_nat (length data mod 256),
                                        word_of_nat (length data div 256)] @ data"]
  by (simp add: build_frame_def pack_2sBH_def FRAME_HEADER_def bytes_of_int_def Let_def)

lemma unat_len_bytes:
  assumes "n < 65536"
  shows "unat (word_of_nat (n mod 256) :: byte) + 256 * unat (word_of_nat (n div 256) :: byte) = n"
proof -
  have "n div 256 < 256" using assms by simp
  then have "unat (word_of_nat (n div 256) :: byte) = n div 256"
    by (simp add: unat_of_nat)
  moreover have "unat (word_of_nat (n mod 256) :: byte) = n mod 256"
    by (simp add: unat_of_nat)
  ultimately show ?thesis by simp
qed

lemma bytes_find_header_at:
  assumes "bytes_find buffer FRAME_HEADER = int n"
  shows "n \<le> length buffer \<and> take 2 (drop n buffer) = FRAME_HEADER"
proof -
  have "bytes_find_from 0 FRAME_HEADER buffer \<noteq> - 1"
    using assms by (simp add: bytes_find_def)
  from bytes_find_from_found [OF this] obtain m where
    m: "bytes_find_from 0 FRAME_HEADER buffer = int (0 + m)" "m \<le> length buffer"
       "take (length FRAME_HEADER) (drop m buffer) = FRAME_HEADER"
    by blast
  have "m = n"
    using m(1) assms by (simp add: bytes_find_def)
  moreover have "length FRAME_HEADER = 2"
    by (simp add: FRAME_HEADER_def)
  ultimately show ?thesis
    using m by simp
qed

lemma bytes_find_header_start:
  assumes "take 2 buf = FRAME_HEADER"
  shows "bytes_find buf FRAME_HEADER = 0"
proof (cases buf)
  case Nil
  with assms show ?thesis by (simp add: FRAME_HEADER_def)
next
  case (Cons b bs)
  with assms show ?thesis by (simp add: bytes_find_def FRAME_HEADER_def)
qed

lemma parse_frame_skip:
  assumes "bytes_find buffer FRAME_HEADER = int n"
  shows "parse_frame buffer = parse_frame (drop n buffer)"
proof -
  have "bytes_find (drop n buffer) FRAME_HEADER = 0"
    using bytes_find_header_at [OF assms] by (intro bytes_find_header_start) simp
  then show ?thesis
    using assms by (simp add: parse_frame_def)
qed

lemma header_frame_decomp:
  assumes hdr: "take 2 buf = FRAME_HEADER"
    and len: "6 + unpack_H (slice buf 3 5) \<le> length buf"
  shows "\<exists>c lo hi data k S. buf = [0xAA, 0x55, c, lo, hi] @ data @ [k] @ S
           \<and> unat lo + 256 * unat hi = length data"
proof -
  from len have "5 \<le> length buf" by simp
  then obtain b0 b1 c lo hi rest where buf: "buf = b0 # b1 # c # lo # hi # rest"
    by (auto simp: eval_nat_numeral Suc_le_length_iff)
  from hdr buf have h: "b0 = 0xAA" "b1 = 0x55"
    by (simp_all add: FRAME_HEADER_def)
  let ?n = "unat lo + 256 * unat hi"
  have n: "unpack_H (slice buf 3 5) = ?n"
    by (simp add: buf unpack_H_def slice_def)
  with len buf have "?n < length rest" by simp
  then have "rest = take ?n rest @ [rest ! ?n] @ drop (Suc ?n) rest"
    by (simp add: id_take_nth_drop)
  moreover have "length (take ?n rest) = ?n"
    using \<open>?n < length rest\<close> by simp
  ultimately have "buf = [0xAA, 0x55, c, lo, hi] @ take ?n rest @ [rest ! ?n] @ drop (Suc ?n) rest
       \<and> unat lo + 256 * unat hi = length (take ?n rest)"
    using buf h by simp
  then show ?thesis by blast
qed

lemma build_frame_of_bytes:
  assumes len: "unat (lo :: byte) + 256 * unat (hi :: byte) = length data"
    and k: "uint (k :: byte) = calc_checksum ([c, lo, hi] @ data)"
  shows "build_frame (uint c) data = Inr ([0xAA, 0x55, c, lo, hi] @ data @ [k])"
proof -
  have lo: "unat lo < 256" and hi: "unat hi < 256"
    using unsigned_less [of lo, where ?'a = nat] unsigned_less [of hi, where ?'a = nat] by simp_all
  have l: "length data < 65536"
    using lo hi len by simp
  have m: "length data mod 256 = unat lo" and d: "length data div 256 = unat hi"
    using lo len [symmetric] by simp_all
  have c: "0 \<le> uint c" "uint c < 256"
    using uint_lt2p [of c] by simp_all
  show ?thesis
    using build_frame_ok [OF c l] k [symmetric] by (simp add: m d)
qed

lemma parse_built_frame:
  assumes "build_frame cmd P = Inr frame"
  shows "parse_frame (frame @ S) = (Some (cmd, P), S, [])"
proof -
  have r: "0 \<le> cmd" "cmd < 256" "length P < 65536"
    using assms by (auto simp: build_frame_def pack_2sBH_def split: if_splits)
  let ?c = "word_of_int cmd :: byte"
  let ?lo = "word_of_nat (length P mod 256) :: byte"
  let ?hi = "word_of_nat (length P div 256) :: byte"
  let ?k = "word_of_int (calc_checksum ([?c, ?lo, ?hi] @ P)) :: byte"
  have b: "frame = [0xAA, 0x55, ?c, ?lo, ?hi] @ P @ [?k]"
    using build_frame_ok [OF r] assms by simp
  have len: "unat ?lo + 256 * unat ?hi = length P"
    using r by (intro unat_len_bytes) simp
  have uk: "uint ?k = calc_checksum ([?c, ?lo, ?hi] @ P)"
    using calc_checksum_range [of "[?c, ?lo, ?hi] @ P"] by (simp add: uint_word_of_int)
  have uc: "uint ?c = cmd"
    using r by (simp add: uint_word_of_int)
  show ?thesis
    using parse_frame_at_header [OF len, of ?c ?k S] uk uc by (simp add: b)
qed

lemma parse_frame_Some_frame:
  assumes "parse_frame buffer = (Some (cmd, data), remaining, out)"
  shows "\<exists>pre frame. build_frame cmd data = Inr frame \<and> buffer = pre @ frame @ remaining"
proof -
  have "\<not> bytes_find buffer FRAME_HEADER < 0"
    using assms by (auto simp: parse_frame_def)
  then obtain n where n: "bytes_find buffer FRAME_HEADER = int n"
    by (metis linorder_not_less nonneg_int_cases)
  define buf where "buf = drop n buffer"
  have p: "parse_frame buf = (Some (cmd, data), remaining, out)"
    using parse_frame_skip [OF n] assms by (simp add: buf_def)
  have hdr: "take 2 buf = FRAME_HEADER"
    using bytes_find_header_at [OF n] by (simp add: buf_def)
  have f0: "bytes_find buf FRAME_HEADER = 0"
    using hdr by (rule bytes_find_header_start)
  have "6 + unpack_H (slice buf 3 5) \<le> length buf"
    using p by (auto simp: parse_frame_def Let_def f0 split: if_splits)
  from header_frame_decomp [OF hdr this] obtain c lo hi d k S where
    buf: "buf = [0xAA, 0x55, c, lo, hi] @ d @ [k] @ S"
    and len: "unat lo + 256 * unat hi = length d"
    by blast
  have ok: "uint k = calc_checksum ([c, lo, hi] @ d) \<and> cmd = uint c \<and> data = d \<and> remaining = S"
    using p parse_frame_at_header [OF len, of c k S]
    by (auto simp: buf split: if_splits)
  then have "build_frame cmd data = Inr ([0xAA, 0x55, c, lo, hi] @ d @ [k])"
    using build_frame_of_bytes [OF len, of k c] by simp
  moreover have "buffer = take n buffer @ ([0xAA, 0x55, c, lo, hi] @ d @ [k]) @ remaining"
    using buf ok by (metis append.assoc append_take_drop_id buf_def)
  ultimately show ?thesis by blast
qed

lemma suffix_last: "buffer \<noteq> [] \<Longrightarrow> suffix [last buffer] buffer"
  by (metis append_butlast_last_id suffixI)

lemma parse_frame_suffix:
  "parse_frame buffer = (result, remaining, out) \<Longrightarrow> suffix remaining buffer"
  by (auto simp: parse_frame_def Let_def suffix_last suffix_drop
           intro: suffix_order.trans [OF suffix_drop suffix_drop] split: if_splits)


lemma build_frame_starts_with_header:
  assumes "build_frame cmd P = Inr frame"
  shows "\<exists>rest. frame = 0xAA # 0x55 # rest"
proof -
  have r: "0 \<le> cmd" "cmd < 256" "length P < 65536"
    using assms by (auto simp: build_frame_def pack_2sBH_def split: if_splits)
  show ?thesis
    using build_frame_ok [OF r] assms by simp
qed

lemma parse_after_body:
  assumes nohdr: "\<not> (\<exists>pre post. body = pre @ FRAME_HEADER @ post)"
    and frame: "build_frame cmd P = Inr frame"
  shows "parse_frame (body @ frame @ S) = (Some (cmd, P), S, [])"
proof -
  obtain rest where f: "frame = 0xAA # 0x55 # rest"
    using build_frame_starts_with_header [OF frame] by blast
  have l2: "length FRAME_HEADER = 2"
    by (simp add: FRAME_HEADER_def)
  have at: "take (length FRAME_HEADER) (drop (length body) (body @ frame @ S)) = FRAME_HEADER"
    by (simp add: f FRAME_HEADER_def)
  have before: "\<forall>m<length body.
      take (length FRAME_HEADER) (drop m (body @ frame @ S)) \<noteq> FRAME_HEADER"
  proof (intro allI impI notI)
    fix m
    assume m: "m < length body"
      and eq: "take (length FRAME_HEADER) (drop m (body @ frame @ S)) = FRAME_HEADER"
    show False
    proof (cases "m + 2 \<le> length body")
      case True
      then have "take 2 (drop m body) = FRAME_HEADER"
        using eq by (simp add: l2)
      then have "body = take m body @ FRAME_HEADER @ drop 2 (drop m body)"
        by (metis append_take_drop_id)
      with nohdr show False by blast
    next
      case False
      with m have "length (drop m body) = 1" by simp
      then obtain x where "drop m body = [x]"
        by (cases "drop m body") auto
      then have "take 2 (drop m (body @ frame @ S)) = [x, 0xAA]"
        using m by (simp add: f)
      moreover have "take 2 (drop m (body @ frame @ S)) = FRAME_HEADER"
        using eq by (simp only: l2)
      ultimately have "[x, 0xAA] = FRAME_HEADER"
        by (rule trans [OF sym])
      then show False
        by (simp add: FRAME_HEADER_def)
    qed
  qed
  have "bytes_find (body @ frame @ S) FRAME_HEADER = int (length body)"
    unfolding bytes_find_def
    using bytes_find_from_first [OF at _ before, of 0] by simp
  then have "parse_frame (body @ frame @ S) = parse_frame (drop (length body) (body @ frame @ S))"
    by (rule parse_frame_skip)
  then show ?thesis
    using parse_built_frame [OF frame, of S] by simp
qed

lemma parse_frame_mismatch:
  assumes found: "bytes_find buffer FRAME_HEADER = int idx"
    and buf: "buf = drop idx buffer"
    and len: "len = unpack_H (slice buf 3 5)"
    and complete: "6 + len \<le> length buf"
    and bad: "uint (buf ! (5 + len)) \<noteq> calc_checksum (slice buf 2 (5 + len))"
  shows "parse_frame buffer =
     (None, drop (idx + 2) buffer,
      [ChecksumError (calc_checksum (slice buf 2 (5 + len))) (uint (buf ! (5 + len)))])"
proof -
  have a: "drop (nat (int idx)) buffer = buf"
    by (simp add: buf)
  have b: "\<not> length buf < 6" "\<not> length buf < 5 + len + 1"
    using complete by simp_all
  have c: "drop 2 buf = drop (idx + 2) buffer"
    by (simp add: buf add.commute)
  show ?thesis
    unfolding parse_frame_def Let_def found a len [symmetric]
    using b bad c by simp
qed

section \<open>The drain loop and the receive loop\<close>

lemma drain_within_enough:
  "length buffer div 6 + 1 \<le> n \<Longrightarrow> drain_within n st buffer = Some (drain st buffer)"
proof (induction n arbitrary: st buffer)
  case 0
  then show ?case by simp
next
  case (Suc n)
  obtain result remaining out where p: "parse_frame buffer = (result, remaining, out)"
    by (cases "parse_frame buffer") auto
  show ?case
  proof (cases result)
    case None
    with p show ?thesis by simp
  next
    case (Some f)
    obtain cmd frame_data where f: "f = (cmd, frame_data)"
      by (cases f) auto
    have "length remaining + 6 \<le> length buffer"
      using parse_frame_remaining_length [OF p] Some by simp
    then have "length remaining div 6 + 1 \<le> length buffer div 6"
      by simp
    with Suc.prems have "length remaining div 6 + 1 \<le> n"
      by simp
    then have "drain_within n (handle_frame (print st out) cmd frame_data) remaining
        = Some (drain (handle_frame (print st out) cmd frame_data) remaining)"
      by (rule Suc.IH)
    with p Some f show ?thesis by simp
  qed
qed

lemma build_frame_checksum:
  assumes "build_frame cmd data = Inr frame"
  shows "uint (last frame) = calc_checksum (butlast (drop 2 frame))"
proof -
  have r: "0 \<le> cmd" "cmd < 256" "length data < 65536"
    using assms by (auto simp: build_frame_def pack_2sBH_def split: if_splits)
  let ?body = "[word_of_int cmd, word_of_nat (length data mod 256),
               word_of_nat (length data div 256)] @ data"
  have f: "frame = [0xAA, 0x55] @ ?body @ [word_of_int (calc_checksum ?body)]"
    using build_frame_ok [OF r] assms by simp
  have "uint (word_of_int (calc_checksum ?body) :: byte) = calc_checksum ?body"
    using calc_checksum_range [of ?body] by (simp add: uint_word_of_int)
  moreover have "last frame = word_of_int (calc_checksum ?body)"
    by (simp add: f)
  moreover have "butlast (drop 2 frame) = ?body"
    by (simp add: f butlast_append)
  ultimately show ?thesis by simp
qed

lemma valid_frame_in_extend:
  "valid_frame_in cmd data stream \<Longrightarrow> valid_frame_in cmd data (xs @ stream @ ys)"
proof -
  assume "valid_frame_in cmd data stream"
  then obtain frame pre post where
    f: "build_frame cmd data = Inr frame" "stream = pre @ frame @ post"
       "uint (last frame) = calc_checksum (butlast (drop 2 frame))"
    unfolding valid_frame_in_def by blast
  have "xs @ stream @ ys = (xs @ pre) @ frame @ (post @ ys)"
    using f(2) by simp
  with f(1,3) show ?thesis
    unfolding valid_frame_in_def by blast
qed

lemma parse_frame_valid:
  assumes "parse_frame buffer = (Some (cmd, data), remaining, out)"
  shows "valid_frame_in cmd data buffer"
proof -
  from parse_frame_Some_frame [OF assms] obtain pre frame where
    f: "build_frame cmd data = Inr frame" "buffer = pre @ frame @ remaining"
    by blast
  with build_frame_checksum [OF f(1)] show ?thesis
    unfolding valid_frame_in_def by blast
qed

lemma handled_print [simp]: "handled (print st out) = handled st"
  by (simp add: print_def)

lemma handled_handle_frame [simp]:
  "handled (handle_frame st cmd data) = handled st @ [(cmd, data)]"
  by (simp add: handle_frame_def Let_def)

lemma drain_handled:
  "drain st buffer = (st', buffer') \<Longrightarrow>
     suffix buffer' buffer \<and>
     (\<exists>new. handled st' = handled st @ new
        \<and> (\<forall>(cmd, data) \<in> set new. valid_frame_in cmd data buffer))"
proof (induction st buffer arbitrary: st' buffer' rule: drain.induct)
  case (1 st buffer)
  obtain result remaining out where p: "parse_frame buffer = (result, remaining, out)"
    by (cases "parse_frame buffer") auto
  have sfx: "suffix remaining buffer"
    using p by (rule parse_frame_suffix)
  show ?case
  proof (cases result)
    case None
    with p "1.prems" have "st' = print st out" "buffer' = remaining"
      by simp_all
    with sfx show ?thesis by simp
  next
    case (Some f)
    obtain cmd frame_data where f: "f = (cmd, frame_data)"
      by (cases f) auto
    have p': "parse_frame buffer = (Some (cmd, frame_data), remaining, out)"
      using p Some f by simp
    let ?st1 = "handle_frame (print st out) cmd frame_data"
    have d: "drain ?st1 remaining = (st', buffer')"
      using "1.prems" p' by simp
    have ih: "suffix buffer' remaining \<and>
       (\<exists>new. handled st' = handled ?st1 @ new
          \<and> (\<forall>(cmd, data) \<in> set new. valid_frame_in cmd data remaining))"
      using "1.IH" [OF p' [symmetric] refl refl refl d] .
    then obtain new where new: "handled st' = handled ?st1 @ new"
      "\<forall>(cmd, data) \<in> set new. valid_frame_in cmd data remaining"
      by blast
    obtain z where z: "buffer = z @ remaining"
      using sfx by (auto simp: suffix_def)
    have "\<forall>(cmd, data) \<in> set new. valid_frame_in cmd data buffer"
      using new(2) valid_frame_in_extend [of _ _ remaining z "[]"] z by auto
    moreover have "valid_frame_in cmd frame_data buffer"
      using p' by (rule parse_frame_valid)
    ultimately have "\<forall>(cmd, data) \<in> set ((cmd, frame_data) # new). valid_frame_in cmd data buffer"
      by simp
    moreover have "handled st' = handled st @ ((cmd, frame_data) # new)"
      using new(1) by simp
    moreover have "suffix buffer' buffer"
      using ih sfx by (blast intro: suffix_order.trans)
    ultimately show ?thesis by blast
  qed
qed

lemma rx_loop_from_handled:
  "\<exists>new. handled (rx_loop_from st buffer reads) = handled st @ new
     \<and> (\<forall>(cmd, data) \<in> set new. valid_frame_in cmd data (buffer @ inbound reads))"
proof (induction reads arbitrary: st buffer)
  case Nil
  show ?case by simp
next
  case (Cons event reads)
  show ?case
  proof (cases "running st")
    case False
    then show ?thesis by simp
  next
    case True
    show ?thesis
    proof (cases event)
      case ReadFault
      with True show ?thesis by simp
    next
      case (ReadData data)
      show ?thesis
      proof (cases "data = []")
        case True
        with Cons.IH [of st buffer] ReadData \<open>running st\<close> show ?thesis by simp
      next
        case False
        obtain st' buffer' where d: "drain st (buffer @ data) = (st', buffer')"
          by (cases "drain st (buffer @ data)") auto
        from drain_handled [OF d] obtain new1 z where
          n1: "handled st' = handled st @ new1"
              "\<forall>(cmd, data') \<in> set new1. valid_frame_in cmd data' (buffer @ data)"
          and z: "buffer @ data = z @ buffer'"
          by (auto simp: suffix_def)
        from Cons.IH [of st' buffer'] obtain new2 where
          n2: "handled (rx_loop_from st' buffer' reads) = handled st' @ new2"
              "\<forall>(cmd, data') \<in> set new2. valid_frame_in cmd data' (buffer' @ inbound reads)"
          by blast
        have a: "\<forall>(cmd, data') \<in> set new1.
            valid_frame_in cmd data' (buffer @ data @ inbound reads)"
          using n1(2) valid_frame_in_extend [of _ _ "buffer @ data" "[]" "inbound reads"] by auto
        have e: "buffer @ data @ inbound reads = z @ (buffer' @ inbound reads) @ []"
          using z by (metis append.assoc append_Nil2)
        have b: "\<forall>(cmd, data') \<in> set new2.
            valid_frame_in cmd data' (buffer @ data @ inbound reads)"
          unfolding e using n2(2) valid_frame_in_extend by blast
        have "handled (rx_loop_from st buffer (event # reads)) = handled st @ (new1 @ new2)"
          using False d n1(1) n2(1) ReadData \<open>running st\<close> by simp
        moreover have "\<forall>(cmd, data') \<in> set (new1 @ new2).
            valid_frame_in cmd data' (buffer @ inbound (event # reads))"
          using a b ReadData by auto
        ultimately show ?thesis by blast
      qed
    qed
  qed
qed

section \<open>Bit flips\<close>

lemma calc_checksum_update:
  assumes "i < length xs"
  shows "calc_checksum (xs[i := y]) = calc_checksum xs XOR uint (xs ! i XOR y)"
proof -
  have u: "xs[i := y] = take i xs @ [y] @ drop (Suc i) xs"
    using assms by (simp add: upd_conv_take_nth_drop)
  have x: "xs = take i xs @ [xs ! i] @ drop (Suc i) xs"
    using assms by (simp add: id_take_nth_drop)
  have "calc_checksum (xs[i := y])
      = calc_checksum (take i xs) XOR uint y XOR calc_checksum (drop (Suc i) xs)"
    unfolding u by (simp add: calc_checksum_append calc_checksum_Cons calc_checksum_Nil)
  moreover have "calc_checksum xs
      = calc_checksum (take i xs) XOR uint (xs ! i) XOR calc_checksum (drop (Suc i) xs)"
    using arg_cong [OF x, of calc_checksum]
    by (simp add: calc_checksum_append calc_checksum_Cons calc_checksum_Nil)
  ultimately show ?thesis
    by (simp add: uint_xor ac_simps)
qed

lemma xor_cancel_left:
  fixes a u :: int
  assumes "a XOR u = a"
  shows "u = 0"
proof -
  have "u = (a XOR a) XOR u" by simp
  also have "\<dots> = a XOR (a XOR u)" by (simp only: xor.assoc)
  also have "\<dots> = 0" by (simp add: assms)
  finally show ?thesis .
qed

lemma xor_left_inj:
  fixes a :: byte
  shows "(a XOR u = a XOR v) = (u = v)"
proof
  assume e: "a XOR u = a XOR v"
  have "u = a XOR (a XOR u)" by (simp add: xor.assoc [symmetric])
  also have "\<dots> = a XOR (a XOR v)" by (simp only: e)
  also have "\<dots> = v" by (simp add: xor.assoc [symmetric])
  finally show "u = v" .
qed simp

lemma flip_bit_differs:
  assumes "k < 8"
  shows "flip_bit k (b :: byte) \<noteq> b"
proof
  assume "flip_bit k b = b"
  then have "bit (flip_bit k b) k = bit b k" by simp
  then show False
    using assms by (simp add: bit_flip_bit_iff)
qed

lemma calc_checksum_flip:
  assumes "i < length xs" "k < 8"
  shows "calc_checksum (xs[i := flip_bit k (xs ! i)]) \<noteq> calc_checksum xs"
proof
  assume e: "calc_checksum (xs[i := flip_bit k (xs ! i)]) = calc_checksum xs"
  have "calc_checksum xs XOR uint (xs ! i XOR flip_bit k (xs ! i)) = calc_checksum xs"
    using calc_checksum_update [OF assms(1), of "flip_bit k (xs ! i)"] e by simp
  then have "uint (xs ! i XOR flip_bit k (xs ! i)) = 0"
    by (rule xor_cancel_left)
  then have "xs ! i XOR flip_bit k (xs ! i) = 0"
    by (simp add: uint_0_iff)
  then have "xs ! i XOR flip_bit k (xs ! i) = xs ! i XOR xs ! i"
    by simp
  then have "flip_bit k (xs ! i) = xs ! i"
    by (simp only: xor_left_inj)
  with flip_bit_differs [OF assms(2)] show False by blast
qed

lemma calc_checksum_twice: "calc_checksum (xs @ xs) = 0"
  by (simp add: calc_checksum_append)

lemma slice_update_inside:
  assumes "a \<le> j" "j < b" "b \<le> length xs"
  shows "slice (xs[j := y]) a b = (slice xs a b)[j - a := y]"
  using assms by (simp add: slice_def drop_update_swap take_update_swap)

lemma slice_nth:
  assumes "a \<le> j" "j < b" "b \<le> length xs"
  shows "slice xs a b ! (j - a) = xs ! j"
  using assms by (simp add: slice_def)

lemma build_frame_checksum_slice:
  assumes "build_frame cmd data = Inr frame"
  shows "uint (last frame) = calc_checksum (slice frame 2 (length frame - 1))
         \<and> 6 \<le> length frame"
proof -
  have r: "0 \<le> cmd" "cmd < 256" "length data < 65536"
    using assms by (auto simp: build_frame_def pack_2sBH_def split: if_splits)
  have "6 \<le> length frame"
    using build_frame_ok [OF r] assms by auto
  moreover have "length frame - 1 - 2 = length (drop 2 frame) - 1"
    by simp
  then have "slice frame 2 (length frame - 1) = butlast (drop 2 frame)"
    unfolding slice_def butlast_conv_take by (rule arg_cong)
  ultimately show ?thesis
    using build_frame_checksum [OF assms] by simp
qed

section \<open>Effects of the reader task and of sending\<close>

lemma rx_extends_refl: "rx_extends st st"
  by (simp add: rx_extends_def audio_of_def)

lemma rx_extends_trans:
  assumes "rx_extends a b" "rx_extends b c"
  shows "rx_extends a c"
proof -
  obtain n1 where n1: "handled b = handled a @ n1" "audio_data b = audio_data a @ audio_of n1"
    using assms(1) unfolding rx_extends_def by blast
  obtain n2 where n2: "handled c = handled b @ n2" "audio_data c = audio_data b @ audio_of n2"
    using assms(2) unfolding rx_extends_def by blast
  have "handled c = handled a @ (n1 @ n2)"
    using n1 n2 by simp
  moreover have "audio_data c = audio_data a @ audio_of (n1 @ n2)"
    using n1 n2 by (simp add: audio_of_def)
  ultimately have "\<exists>new. handled c = handled a @ new \<and> audio_data c = audio_data a @ audio_of new"
    by blast
  then show ?thesis
    using assms unfolding rx_extends_def by simp
qed

lemma rx_extends_print: "rx_extends st (print st out)"
  by (simp add: rx_extends_def print_def audio_of_def)

lemma rx_extends_handle_frame: "rx_extends st (handle_frame st cmd data)"
proof -
  have "handled (handle_frame st cmd data) = handled st @ [(cmd, data)]"
    by simp
  moreover have "audio_data (handle_frame st cmd data) = audio_data st @ audio_of [(cmd, data)]"
    by (simp add: handle_frame_def Let_def print_def audio_of_def)
  moreover have "files (handle_frame st cmd data) = files st
      \<and> serial (handle_frame st cmd data) = serial st
      \<and> running (handle_frame st cmd data) = running st"
    by (simp add: handle_frame_def Let_def print_def)
  ultimately show ?thesis
    unfolding rx_extends_def by blast
qed

lemma rx_extends_drain: "drain st buffer = (st', buffer') \<Longrightarrow> rx_extends st st'"
proof (induction st buffer arbitrary: st' buffer' rule: drain.induct)
  case (1 st buffer)
  obtain result remaining out where p: "parse_frame buffer = (result, remaining, out)"
    by (cases "parse_frame buffer") auto
  show ?case
  proof (cases result)
    case None
    with p "1.prems" have "st' = print st out"
      by simp
    then show ?thesis
      by (simp add: rx_extends_print)
  next
    case (Some f)
    obtain cmd frame_data where f: "f = (cmd, frame_data)"
      by (cases f) auto
    have p': "parse_frame buffer = (Some (cmd, frame_data), remaining, out)"
      using p Some f by simp
    let ?st1 = "handle_frame (print st out) cmd frame_data"
    have d: "drain ?st1 remaining = (st', buffer')"
      using "1.prems" p' by simp
    have "rx_extends ?st1 st'"
      using "1.IH" [OF p' [symmetric] refl refl refl d] .
    moreover have "rx_extends st ?st1"
      using rx_extends_print rx_extends_handle_frame by (rule rx_extends_trans)
    ultimately show ?thesis
      using rx_extends_trans by blast
  qed
qed

lemma rx_extends_rx_loop_from: "rx_extends st (rx_loop_from st buffer reads)"
proof (induction reads arbitrary: st buffer)
  case Nil
  show ?case by (simp add: rx_extends_refl)
next
  case (Cons event reads)
  show ?case
  proof (cases "running st")
    case False
    then show ?thesis by (simp add: rx_extends_refl)
  next
    case True
    show ?thesis
    proof (cases event)
      case ReadFault
      with True show ?thesis by (simp add: rx_extends_print)
    next
      case (ReadData data)
      show ?thesis
      proof (cases "data = []")
        case True
        with Cons.IH [of st buffer] ReadData \<open>running st\<close> show ?thesis by simp
      next
        case False
        obtain st' buffer' where d: "drain st (buffer @ data) = (st', buffer')"
          by (cases "drain st (buffer @ data)") auto
        have "rx_extends st st'"
          using d by (rule rx_extends_drain)
        moreover have "rx_extends st' (rx_loop_from st' buffer' reads)"
          by (rule Cons.IH)
        ultimately have "rx_extends st (rx_loop_from st' buffer' reads)"
          by (rule rx_extends_trans)
        then show ?thesis
          using False d ReadData \<open>running st\<close> by simp
      qed
    qed
  qed
qed

lemma rx_extends_rx_loop: "rx_extends st (rx_loop st reads)"
  by (simp add: rx_loop_def rx_extends_rx_loop_from)


lemma chunk_index_less:
  fixes k n cs :: nat
  assumes "0 < cs"
  shows "k * cs < n \<longleftrightarrow> k < (n + cs - 1) div cs"
proof -
  have "(n + cs - 1) div cs \<le> k \<longleftrightarrow> (n + cs - 1) div cs < Suc k"
    by auto
  also have "\<dots> \<longleftrightarrow> n + cs - 1 < Suc k * cs"
    using assms by (simp add: div_less_iff_less_mult)
  also have "\<dots> \<longleftrightarrow> n \<le> k * cs"
    using assms by auto
  finally show ?thesis by auto
qed

lemma send_frame_connected:
  assumes "serial st = Some ws" "build_frame cmd data = Inr frame"
  shows "send_frame st cmd data = Inr (True, st\<lparr>serial := Some (ws @ [frame])\<rparr>)"
  using assms by (simp add: send_frame_def)

lemma send_chunks_written:
  assumes "0 < cs" "cs < 65536"
  shows "serial st = Some ws \<Longrightarrow> k \<le> (length frames + cs - 1) div cs \<Longrightarrow>
    \<exists>st' fs. send_chunks st frames cs total_chunks (k * cs) = Inr st'
      \<and> serial st' = Some (ws @ fs)
      \<and> list_all2 (\<lambda>f c. build_frame CMD_AUDIO_DATA c = Inr f) fs
           (map (\<lambda>k. slice frames (k * cs) (k * cs + cs)) [k..<(length frames + cs - 1) div cs])"
proof (induction "(length frames + cs - 1) div cs - k" arbitrary: st ws k)
  case 0
  then have k: "k = (length frames + cs - 1) div cs"
    by simp
  then have "\<not> k * cs < length frames"
    using chunk_index_less [OF assms(1), of k "length frames"] by simp
  then have "send_chunks st frames cs total_chunks (k * cs) = Inr st"
    by simp
  then show ?case
    using "0.prems"(1) k by simp
next
  case (Suc d)
  let ?m = "(length frames + cs - 1) div cs"
  let ?chunk = "slice frames (k * cs) (k * cs + cs)"
  have klt: "k < ?m"
    using Suc.hyps(2) by simp
  then have lt: "k * cs < length frames"
    using chunk_index_less [OF assms(1), of k "length frames"] by simp
  have "length ?chunk \<le> cs"
    by (simp add: slice_def)
  then have len: "length ?chunk < 65536"
    using assms(2) by simp
  have c: "(0::int) \<le> CMD_AUDIO_DATA" "CMD_AUDIO_DATA < 256"
    by (simp_all add: CMD_AUDIO_DATA_def)
  obtain frame where frame: "build_frame CMD_AUDIO_DATA ?chunk = Inr frame"
    using build_frame_ok [OF c len] by blast
  let ?st1 = "print (st\<lparr>serial := Some (ws @ [frame])\<rparr>) [PlayProgress (k * cs div cs + 1) total_chunks]"
  have step: "send_chunks st frames cs total_chunks (k * cs)
      = send_chunks ?st1 frames cs total_chunks (Suc k * cs)"
    using lt assms(1) send_frame_connected [OF Suc.prems(1) frame]
    by (subst send_chunks.simps) (simp add: add.commute)
  have s1: "serial ?st1 = Some (ws @ [frame])"
    by (simp add: print_def)
  have d: "d = ?m - Suc k"
    using Suc.hyps(2) by simp
  have "Suc k \<le> ?m"
    using klt by simp
  from Suc.hyps(1) [OF d s1 this] obtain st' fs where
    r: "send_chunks ?st1 frames cs total_chunks (Suc k * cs) = Inr st'"
       "serial st' = Some ((ws @ [frame]) @ fs)"
       "list_all2 (\<lambda>f c. build_frame CMD_AUDIO_DATA c = Inr f) fs
           (map (\<lambda>k. slice frames (k * cs) (k * cs + cs)) [Suc k..<?m])"
    by blast
  have u: "[k..<?m] = k # [Suc k..<?m]"
    using klt by (simp add: upt_conv_Cons)
  have "list_all2 (\<lambda>f c. build_frame CMD_AUDIO_DATA c = Inr f) (frame # fs)
           (map (\<lambda>k. slice frames (k * cs) (k * cs + cs)) [k..<?m])"
    unfolding u using frame r(3) by simp
  moreover have "serial st' = Some (ws @ frame # fs)"
    using r(2) by simp
  moreover have "send_chunks st frames cs total_chunks (k * cs) = Inr st'"
    using step r(1) by simp
  ultimately show ?case by blast
qed

lemma concat_chunks_take:
  "concat (map (\<lambda>k. slice xs (k * cs) (k * cs + cs)) [0..<m]) = take (m * cs) xs"
proof (induction m)
  case 0
  show ?case by simp
next
  case (Suc m)
  have "Suc m * cs = m * cs + cs"
    by simp
  then have "take (Suc m * cs) xs = take (m * cs) xs @ take cs (drop (m * cs) xs)"
    by (simp only: take_add)
  then show ?case
    using Suc by (simp add: slice_def)
qed

lemma concat_chunk_list:
  assumes "0 < cs"
  shows "concat (chunk_list xs cs) = xs"
proof -
  let ?m = "(length xs + cs - 1) div cs"
  have "\<not> ?m * cs < length xs"
    using chunk_index_less [OF assms, of ?m "length xs"] by simp
  then show ?thesis
    by (simp add: chunk_list_def concat_chunks_take)
qed

lemma chunk_list_2049:
  assumes "length xs = 2049"
  shows "map length (chunk_list xs 512) = [512, 512, 512, 512, 1]"
proof -
  have "(length xs + 512 - 1) div 512 = 5"
    using assms by simp
  moreover have "[0..<5] = [0, 1, 2, 3, 4]"
    by (simp add: upt_rec)
  ultimately show ?thesis
    using assms by (simp add: chunk_list_def slice_def)
qed

lemma send_chunks_from_start:
  assumes "0 < cs" "cs < 65536" "serial st = Some ws"
  shows "\<exists>st' fs. send_chunks st frames cs total_chunks 0 = Inr st'
      \<and> serial st' = Some (ws @ fs)
      \<and> list_all2 (\<lambda>f c. build_frame CMD_AUDIO_DATA c = Inr f) fs (chunk_list frames cs)"
  using send_chunks_written [OF assms(1,2,3), of 0 frames total_chunks]
  by (simp add: chunk_list_def)

section \<open>Claims about the frame codec and the stream parser\<close>

text \<open>The definitions that evaluate \<open>parse_frame\<close> on a given buffer.\<close>

lemmas pf_eval = parse_frame_def bytes_find_def FRAME_HEADER_def unpack_H_def slice_def
  calc_checksum_def

text \<open>
  C9. \<open>calc_checksum\<close> is the XOR-fold of its input for every input length, its value
  is always in \<open>0..255\<close>, and it is \<open>0\<close> for the empty sequence.
\<close>

theorem calc_checksum_is_xor_fold:
  "calc_checksum data = xor_fold data
   \<and> 0 \<le> calc_checksum data \<and> calc_checksum data \<le> 255
   \<and> calc_checksum [] = 0"
proof -
  have "calc_checksum data = xor_fold data"
    by (induction data) (simp_all add: calc_checksum_Cons calc_checksum_Nil xor_fold_def)
  moreover have "0 \<le> calc_checksum data \<and> calc_checksum data \<le> 255"
    using calc_checksum_range [of data] by simp
  ultimately show ?thesis
    by (simp add: calc_checksum_Nil)
qed

text \<open>
  C1. For every command byte \<open>cmd\<close> and every payload \<open>P\<close> of at most 65535 bytes,
  \<open>send_frame\<close> builds a frame, and \<open>parse_frame\<close> applied to that frame followed by any
  bytes \<open>S\<close> returns the frame \<open>(cmd, P)\<close> and leaves exactly \<open>S\<close>; it prints nothing.
  With \<open>S\<close> empty this is the round trip of encoding and decoding.
\<close>

theorem encode_parse_roundtrip:
  assumes "0 \<le> cmd" "cmd \<le> 255" "length P \<le> 65535"
  shows "\<exists>frame. build_frame cmd P = Inr frame
           \<and> parse_frame (frame @ S) = (Some (cmd, P), S, [])
           \<and> parse_frame frame = (Some (cmd, P), [], [])"
proof -
  have "0 \<le> cmd" "cmd < 256" "length P < 65536"
    using assms by simp_all
  from build_frame_ok [OF this] obtain frame where b: "build_frame cmd P = Inr frame"
    by blast
  have "parse_frame (frame @ S) = (Some (cmd, P), S, [])"
    using b by (rule parse_built_frame)
  moreover have "parse_frame frame = (Some (cmd, P), [], [])"
    using parse_built_frame [OF b, of "[]"] by simp
  ultimately show ?thesis
    using b by blast
qed

theorem encode_parse_roundtrip_witness:
  "(0 :: int) \<le> 3 \<and> (3 :: int) \<le> 255 \<and> length [0x10, 0x20 :: byte] \<le> 65535
   \<and> build_frame 3 [0x10, 0x20] = Inr [0xAA, 0x55, 0x03, 0x02, 0x00, 0x10, 0x20, 0x31]
   \<and> parse_frame ([0xAA, 0x55, 0x03, 0x02, 0x00, 0x10, 0x20, 0x31] @ [0xAA, 0x07])
       = (Some (3, [0x10, 0x20]), [0xAA, 0x07], [])"
proof -
  have b: "build_frame 3 [0x10, 0x20] = Inr [0xAA, 0x55, 0x03, 0x02, 0x00, 0x10, 0x20, 0x31]"
    by (simp add: build_frame_def pack_2sBH_def FRAME_HEADER_def bytes_of_int_def
        calc_checksum_def)
  show ?thesis
    using encode_parse_roundtrip [of 3 "[0x10, 0x20]" "[0xAA, 0x07]"] b by auto
qed

text \<open>
  C4. The handshake command \<open>0x06\<close> with an empty payload is encoded as
  \<open>AA 55 06 00 00 06\<close>, and the audio-data command \<open>0x03\<close> with the payload \<open>10 20\<close> as
  \<open>AA 55 03 02 00 10 20 31\<close>: the length field is little-endian, the checksums are
  \<open>0x06\<close> and \<open>0x31\<close>.
\<close>

theorem encode_scenarios:
  "build_frame CMD_HANDSHAKE [] = Inr [0xAA, 0x55, 0x06, 0x00, 0x00, 0x06]
   \<and> calc_checksum [0x06, 0x00, 0x00] = 0x06
   \<and> build_frame CMD_AUDIO_DATA [0x10, 0x20]
       = Inr [0xAA, 0x55, 0x03, 0x02, 0x00, 0x10, 0x20, 0x31]
   \<and> calc_checksum [0x03, 0x02, 0x00, 0x10, 0x20] = 0x31"
  by (simp add: build_frame_def pack_2sBH_def FRAME_HEADER_def bytes_of_int_def
      calc_checksum_def CMD_HANDSHAKE_def CMD_AUDIO_DATA_def)

text \<open>
  C5. When the buffer contains no occurrence of the header marker \<open>AA 55\<close>,
  \<open>parse_frame\<close> reports no frame and returns the final byte of the buffer as the
  remaining buffer, the empty sequence when the buffer is empty.
\<close>

theorem no_header_keeps_last_byte:
  assumes "\<not> (\<exists>pre post. buffer = pre @ FRAME_HEADER @ post)"
  shows "parse_frame buffer = (None, (if buffer = [] then [] else [last buffer]), [])"
proof -
  have "bytes_find buffer FRAME_HEADER = - 1"
    unfolding bytes_find_def using assms by (rule bytes_find_from_absent)
  then show ?thesis
    by (simp add: parse_frame_def)
qed

theorem no_header_keeps_last_byte_witness:
  "\<not> (\<exists>pre post. [0x55, 0x01, 0xAA :: byte] = pre @ FRAME_HEADER @ post)
   \<and> parse_frame [0x55, 0x01, 0xAA] = (None, [0xAA], [])
   \<and> \<not> (\<exists>pre post. ([] :: bytes) = pre @ FRAME_HEADER @ post)
   \<and> parse_frame [] = (None, [], [])"
proof -
  have a: "\<not> (\<exists>pre post. [0x55, 0x01, 0xAA :: byte] = pre @ FRAME_HEADER @ post)"
    by (auto simp: FRAME_HEADER_def Cons_eq_append_conv append_eq_Cons_conv)
  have b: "\<not> (\<exists>pre post. ([] :: bytes) = pre @ FRAME_HEADER @ post)"
    by (simp add: FRAME_HEADER_def)
  show ?thesis
    using a b no_header_keeps_last_byte [OF a] no_header_keeps_last_byte [OF b] by simp
qed

text \<open>
  C2 (as the code has it). When \<open>parse_frame\<close> finds the header at index \<open>idx\<close>, the
  frame that starts there is complete and its trailing byte differs from the checksum
  of command, length bytes and payload, it reports no frame, prints the mismatch and
  returns the buffer from \<open>idx + 2\<close> on: it drops the header marker and nothing else, and
  the remaining buffer is at least two bytes shorter. A valid frame later in the buffer
  is returned by the next call when no header marker occurs in the bytes between the
  dropped marker and that frame.
\<close>

theorem checksum_mismatch_drops_header:
  assumes found: "bytes_find buffer FRAME_HEADER = int idx"
    and buf: "buf = drop idx buffer"
    and len: "len = unpack_H (slice buf 3 5)"
    and complete: "6 + len \<le> length buf"
    and bad: "uint (buf ! (5 + len)) \<noteq> calc_checksum (slice buf 2 (5 + len))"
  shows "parse_frame buffer =
           (None, drop (idx + 2) buffer,
            [ChecksumError (calc_checksum (slice buf 2 (5 + len))) (uint (buf ! (5 + len)))])
         \<and> length (drop (idx + 2) buffer) + 2 \<le> length buffer
         \<and> (\<forall>body frame S cmd P.
              drop (idx + 2) buffer = body @ frame @ S
              \<and> build_frame cmd P = Inr frame
              \<and> \<not> (\<exists>pre post. body = pre @ FRAME_HEADER @ post)
              \<longrightarrow> parse_frame (drop (idx + 2) buffer) = (Some (cmd, P), S, []))"
proof -
  have "idx + 6 \<le> length buffer"
    using complete buf by simp
  then have "length (drop (idx + 2) buffer) + 2 \<le> length buffer"
    by simp
  moreover have "parse_frame buffer =
           (None, drop (idx + 2) buffer,
            [ChecksumError (calc_checksum (slice buf 2 (5 + len))) (uint (buf ! (5 + len)))])"
    using assms by (rule parse_frame_mismatch)
  moreover have "\<forall>body frame S cmd P.
              drop (idx + 2) buffer = body @ frame @ S
              \<and> build_frame cmd P = Inr frame
              \<and> \<not> (\<exists>pre post. body = pre @ FRAME_HEADER @ post)
              \<longrightarrow> parse_frame (drop (idx + 2) buffer) = (Some (cmd, P), S, [])"
    using parse_after_body by auto
  ultimately show ?thesis by blast
qed

theorem checksum_mismatch_drops_header_witness:
  "parse_frame ([0x01, 0xAA, 0x55, 0x06, 0x00, 0x00, 0x07]
                 @ [0xAA, 0x55, 0x03, 0x02, 0x00, 0x10, 0x20, 0x31] @ [0x09])
     = (None, [0x06, 0x00, 0x00, 0x07, 0xAA, 0x55, 0x03, 0x02, 0x00, 0x10, 0x20, 0x31, 0x09],
        [ChecksumError 6 7])
   \<and> parse_frame [0x06, 0x00, 0x00, 0x07, 0xAA, 0x55, 0x03, 0x02, 0x00, 0x10, 0x20, 0x31, 0x09]
     = (Some (3, [0x10, 0x20]), [0x09], [])"
proof -
  let ?buffer = "[0x01, 0xAA, 0x55, 0x06, 0x00, 0x00, 0x07]
                 @ [0xAA, 0x55, 0x03, 0x02, 0x00, 0x10, 0x20, 0x31] @ [0x09 :: byte]"
  let ?buf = "drop 1 ?buffer"
  have found: "bytes_find ?buffer FRAME_HEADER = int 1"
    by (simp add: bytes_find_def FRAME_HEADER_def)
  have len: "0 = unpack_H (slice ?buf 3 5)"
    by (simp add: unpack_H_def slice_def)
  have complete: "6 + 0 \<le> length ?buf"
    by simp
  have bad: "uint (?buf ! (5 + 0)) \<noteq> calc_checksum (slice ?buf 2 (5 + 0))"
    by (simp add: slice_def calc_checksum_def)
  have frame: "build_frame 3 [0x10, 0x20] = Inr [0xAA, 0x55, 0x03, 0x02, 0x00, 0x10, 0x20, 0x31]"
    by (simp add: build_frame_def pack_2sBH_def FRAME_HEADER_def bytes_of_int_def
        calc_checksum_def)
  have nohdr: "\<not> (\<exists>pre post. [0x06, 0x00, 0x00, 0x07 :: byte] = pre @ FRAME_HEADER @ post)"
    by (auto simp: FRAME_HEADER_def Cons_eq_append_conv append_eq_Cons_conv)
  have rest: "drop (1 + 2) ?buffer
      = [0x06, 0x00, 0x00, 0x07] @ [0xAA, 0x55, 0x03, 0x02, 0x00, 0x10, 0x20, 0x31] @ [0x09]"
    by simp
  note main = checksum_mismatch_drops_header [OF found refl len complete bad]
  have a: "parse_frame ?buffer = (None, drop (1 + 2) ?buffer, [ChecksumError 6 7])"
    using main by (simp add: slice_def calc_checksum_def)
  have b: "parse_frame (drop (1 + 2) ?buffer) = (Some (3, [0x10, 0x20]), [0x09], [])"
    using main rest frame nohdr by blast
  show ?thesis
    using a b by simp
qed

text \<open>
  C2 as stated fails: the buffer below holds a complete frame with a wrong checksum
  whose payload is \<open>AA 55\<close>, followed by the valid handshake frame. The first call drops
  the header marker; the second call finds the marker inside the old payload, reads the
  length \<open>0x55AA\<close> after it and returns the buffer to wait for more bytes; so does every
  call after it. The valid frame is not returned.
\<close>

theorem resync_counterexample:
  "build_frame 6 [] = Inr [0xAA, 0x55, 0x06, 0x00, 0x00, 0x06]
   \<and> parse_frame ([0xAA, 0x55, 0x01, 0x02, 0x00, 0xAA, 0x55, 0xFF]
                   @ [0xAA, 0x55, 0x06, 0x00, 0x00, 0x06])
       = (None, [0x01, 0x02, 0x00, 0xAA, 0x55, 0xFF, 0xAA, 0x55, 0x06, 0x00, 0x00, 0x06],
          [ChecksumError 0xFC 0xFF])
   \<and> parse_frame [0x01, 0x02, 0x00, 0xAA, 0x55, 0xFF, 0xAA, 0x55, 0x06, 0x00, 0x00, 0x06]
       = (None, [0xAA, 0x55, 0xFF, 0xAA, 0x55, 0x06, 0x00, 0x00, 0x06], [])
   \<and> parse_frame [0xAA, 0x55, 0xFF, 0xAA, 0x55, 0x06, 0x00, 0x00, 0x06]
       = (None, [0xAA, 0x55, 0xFF, 0xAA, 0x55, 0x06, 0x00, 0x00, 0x06], [])"
  by (simp add: pf_eval build_frame_def pack_2sBH_def bytes_of_int_def)

text \<open>
  C10. The remaining buffer that \<open>parse_frame\<close> returns is a suffix of its input, and
  it is at least 6 bytes shorter whenever a frame is returned. The drain loop of the
  receive loop therefore finishes within \<open>len(buffer) div 6 + 1\<close> passes: limited to
  that many passes it returns the result of the loop.
\<close>

theorem parse_frame_consumes_prefix:
  "(case parse_frame buffer of
      (result, remaining, out) \<Rightarrow>
        suffix remaining buffer
        \<and> (result \<noteq> None \<longrightarrow> length remaining + 6 \<le> length buffer))
   \<and> drain_within (length buffer div 6 + 1) st buffer = Some (drain st buffer)"
proof -
  obtain result remaining out where p: "parse_frame buffer = (result, remaining, out)"
    by (cases "parse_frame buffer") auto
  have "suffix remaining buffer"
    using p by (rule parse_frame_suffix)
  moreover have "result \<noteq> None \<longrightarrow> length remaining + 6 \<le> length buffer"
    using parse_frame_remaining_length [OF p] by blast
  moreover have "drain_within (length buffer div 6 + 1) st buffer = Some (drain st buffer)"
    by (rule drain_within_enough) simp
  ultimately show ?thesis
    using p by simp
qed

theorem parse_frame_consumes_prefix_witness:
  "parse_frame [0xAA, 0x55, 0x06, 0x00, 0x00, 0x06, 0xAA, 0x55, 0x07, 0x00, 0x00, 0x07, 0x01]
     = (Some (6, []), [0xAA, 0x55, 0x07, 0x00, 0x00, 0x07, 0x01], [])
   \<and> suffix [0xAA, 0x55, 0x07, 0x00, 0x00, 0x07, 0x01]
        [0xAA, 0x55, 0x06, 0x00, 0x00, 0x06, 0xAA, 0x55, 0x07, 0x00, 0x00, 0x07, 0x01 :: byte]
   \<and> drain_within 3 connected_tool
        [0xAA, 0x55, 0x06, 0x00, 0x00, 0x06, 0xAA, 0x55, 0x07, 0x00, 0x00, 0x07, 0x01]
       = Some (drain connected_tool
        [0xAA, 0x55, 0x06, 0x00, 0x00, 0x06, 0xAA, 0x55, 0x07, 0x00, 0x00, 0x07, 0x01])
   \<and> drain_within 2 connected_tool
        [0xAA, 0x55, 0x06, 0x00, 0x00, 0x06, 0xAA, 0x55, 0x07, 0x00, 0x00, 0x07, 0x01]
       = None"
proof -
  let ?b = "[0xAA, 0x55, 0x06, 0x00, 0x00, 0x06, 0xAA, 0x55, 0x07, 0x00, 0x00, 0x07, 0x01 :: byte]"
  have p1: "parse_frame ?b = (Some (6, []), [0xAA, 0x55, 0x07, 0x00, 0x00, 0x07, 0x01], [])"
    by (simp add: pf_eval)
  have p2: "parse_frame [0xAA, 0x55, 0x07, 0x00, 0x00, 0x07, 0x01] = (Some (7, []), [0x01], [])"
    by (simp add: pf_eval)
  have p3: "parse_frame [0x01] = (None, [0x01], [])"
    by (simp add: pf_eval)
  have short: "drain_within 2 connected_tool ?b = None"
    by (simp add: eval_nat_numeral p1 p2 p3)
  have "length ?b div 6 + 1 = 3"
    by simp
  then show ?thesis
    using parse_frame_consumes_prefix [of ?b connected_tool] p1 short by simp
qed

text \<open>
  C6. The receive loop hands a pair \<open>(cmd, data)\<close> to \<open>handle_frame\<close> only when the
  inbound byte stream contains the frame that encodes it, whose trailing byte equals
  the XOR of command, length bytes and payload: whatever the stream, no frame with a
  checksum mismatch is dispatched.
\<close>

theorem rx_loop_dispatches_valid_frames_only:
  "\<exists>new. handled (rx_loop st reads) = handled st @ new
     \<and> (\<forall>(cmd, data) \<in> set new. valid_frame_in cmd data (inbound reads))"
  using rx_loop_from_handled [of st "[]" reads] by (simp add: rx_loop_def)

theorem rx_loop_dispatches_valid_frames_only_witness:
  "handled (rx_loop (connected_tool\<lparr>running := True\<rparr>)
      [ReadData [0xAA, 0x55, 0x06, 0x00, 0x00, 0x07, 0xAA, 0x55], ReadData [0x06, 0x00, 0x00, 0x06]])
     = [(6, [])]
   \<and> valid_frame_in 6 []
       (inbound [ReadData [0xAA, 0x55, 0x06, 0x00, 0x00, 0x07, 0xAA, 0x55],
                 ReadData [0x06, 0x00, 0x00, 0x06]])"
proof -
  let ?st = "connected_tool\<lparr>running := True\<rparr>"
  let ?reads = "[ReadData [0xAA, 0x55, 0x06, 0x00, 0x00, 0x07, 0xAA, 0x55],
                 ReadData [0x06, 0x00, 0x00, 0x06]]"
  have p1: "parse_frame [0xAA, 0x55, 0x06, 0x00, 0x00, 0x07, 0xAA, 0x55]
      = (None, [0x06, 0x00, 0x00, 0x07, 0xAA, 0x55], [ChecksumError 6 7])"
    by (simp add: pf_eval)
  have p2: "parse_frame [0x06, 0x00, 0x00, 0x07, 0xAA, 0x55, 0x06, 0x00, 0x00, 0x06]
      = (Some (6, []), [], [])"
    by (simp add: pf_eval)
  have p3: "parse_frame [] = (None, [], [])"
    by (simp add: pf_eval)
  have h: "handled (rx_loop ?st ?reads) = [(6, [])]"
    by (simp add: rx_loop_def p1 p2 p3 connected_tool_def new_tool_def print_def)
  from rx_loop_dispatches_valid_frames_only [of ?st ?reads] obtain new where
    new: "handled (rx_loop ?st ?reads) = handled ?st @ new"
         "\<forall>(cmd, data) \<in> set new. valid_frame_in cmd data (inbound ?reads)"
    by blast
  have "new = [(6, [])]"
    using new(1) h by (simp add: connected_tool_def new_tool_def)
  with new(2) have "valid_frame_in 6 [] (inbound ?reads)"
    by simp
  with h show ?thesis
    by simp
qed

text \<open>
  C3 (as the code has it). Flipping any single bit of any byte sequence changes its
  checksum, and the checksum of a byte sequence concatenated with itself is \<open>0\<close>. In an
  encoded frame the checksum covers the bytes \<open>frame[2:-1]\<close>, that is command, length
  bytes and payload: flipping any single bit of one of these bytes changes the checksum
  of \<open>frame[2:-1]\<close>, which then differs from the trailing checksum byte. The two bytes of
  the header marker are not covered.
\<close>

theorem checksum_detects_bit_flips:
  "(i < length xs \<and> k < 8 \<longrightarrow>
      calc_checksum (xs[i := flip_bit k (xs ! i)]) \<noteq> calc_checksum xs)
   \<and> calc_checksum (xs @ xs) = 0
   \<and> (build_frame cmd data = Inr frame \<and> 2 \<le> j \<and> j < length frame - 1 \<and> k < 8 \<longrightarrow>
        calc_checksum (slice (frame[j := flip_bit k (frame ! j)]) 2 (length frame - 1))
          \<noteq> calc_checksum (slice frame 2 (length frame - 1))
        \<and> calc_checksum (slice (frame[j := flip_bit k (frame ! j)]) 2 (length frame - 1))
          \<noteq> uint (last frame))"
proof -
  have a: "i < length xs \<and> k < 8 \<longrightarrow>
      calc_checksum (xs[i := flip_bit k (xs ! i)]) \<noteq> calc_checksum xs"
    using calc_checksum_flip by blast
  have b: "calc_checksum (xs @ xs) = 0"
    by (rule calc_checksum_twice)
  have c: "calc_checksum (slice (frame[j := flip_bit k (frame ! j)]) 2 (length frame - 1))
          \<noteq> calc_checksum (slice frame 2 (length frame - 1))
        \<and> calc_checksum (slice (frame[j := flip_bit k (frame ! j)]) 2 (length frame - 1))
          \<noteq> uint (last frame)"
    if f: "build_frame cmd data = Inr frame" and j: "2 \<le> j" "j < length frame - 1" and k: "k < 8"
  proof -
    let ?region = "slice frame 2 (length frame - 1)"
    have le: "length frame - 1 \<le> length frame" by simp
    have s: "slice (frame[j := flip_bit k (frame ! j)]) 2 (length frame - 1)
        = ?region[j - 2 := flip_bit k (?region ! (j - 2))]"
      using slice_update_inside [OF j le] slice_nth [OF j le] by simp
    have "j - 2 < length ?region"
      using j by (simp add: slice_def)
    then have "calc_checksum (?region[j - 2 := flip_bit k (?region ! (j - 2))])
        \<noteq> calc_checksum ?region"
      using k by (rule calc_checksum_flip)
    then show ?thesis
      using s build_frame_checksum_slice [OF f] by simp
  qed
  show ?thesis
    using a b c by blast
qed

theorem checksum_detects_bit_flips_witness:
  "(1 :: nat) < length [0x03, 0x02 :: byte] \<and> (7 :: nat) < 8
   \<and> calc_checksum ([0x03, 0x02][1 := flip_bit 7 ([0x03, 0x02 :: byte] ! 1)])
        \<noteq> calc_checksum [0x03, 0x02]
   \<and> build_frame 3 [0x10, 0x20] = Inr [0xAA, 0x55, 0x03, 0x02, 0x00, 0x10, 0x20, 0x31]
   \<and> calc_checksum (slice ([0xAA, 0x55, 0x03, 0x02, 0x00, 0x10, 0x20, 0x31]
          [6 := flip_bit 7 ([0xAA, 0x55, 0x03, 0x02, 0x00, 0x10, 0x20, 0x31 :: byte] ! 6)]) 2 7)
        \<noteq> uint (last [0xAA, 0x55, 0x03, 0x02, 0x00, 0x10, 0x20, 0x31 :: byte])"
proof -
  let ?frame = "[0xAA, 0x55, 0x03, 0x02, 0x00, 0x10, 0x20, 0x31 :: byte]"
  have b: "build_frame 3 [0x10, 0x20] = Inr ?frame"
    by (simp add: build_frame_def pack_2sBH_def FRAME_HEADER_def bytes_of_int_def
        calc_checksum_def)
  have l: "length ?frame - 1 = 7"
    by simp
  show ?thesis
    using checksum_detects_bit_flips [of 1 "[0x03, 0x02]" 7 3 "[0x10, 0x20]" ?frame 6] b
    unfolding l by simp
qed

text \<open>
  C3 as stated fails for the bits of the header marker: flipping the lowest bit of the
  first byte of the handshake frame \<open>AA 55 06 00 00 06\<close> gives \<open>AB 55 06 00 00 06\<close>, and
  the checksum computed over command and length bytes is \<open>0x06\<close> for both.
\<close>

theorem header_bit_flip_counterexample:
  "build_frame 6 [] = Inr [0xAA, 0x55, 0x06, 0x00, 0x00, 0x06]
   \<and> [0xAA, 0x55, 0x06, 0x00, 0x00, 0x06 :: byte][0 := flip_bit 0 0xAA]
       = [0xAB, 0x55, 0x06, 0x00, 0x00, 0x06]
   \<and> calc_checksum (slice [0xAA, 0x55, 0x06, 0x00, 0x00, 0x06] 2 5) = 6
   \<and> calc_checksum (slice [0xAB, 0x55, 0x06, 0x00, 0x00, 0x06] 2 5) = 6"
  by (simp add: build_frame_def pack_2sBH_def FRAME_HEADER_def bytes_of_int_def
      calc_checksum_def slice_def flip_bit_eq_xor)

text \<open>
  A remark on the length field. The parser reads the length from the received bytes, so
  a flipped length bit moves the end of the range it checks: the frame \<open>(1, [01])\<close> with
  the lowest bit of its length flipped parses as the valid frame \<open>(1, [])\<close>.
\<close>

lemma length_bit_flip_accepted:
  "build_frame 1 [0x01] = Inr [0xAA, 0x55, 0x01, 0x01, 0x00, 0x01, 0x01]
   \<and> [0xAA, 0x55, 0x01, 0x01, 0x00, 0x01, 0x01 :: byte][3 := flip_bit 0 0x01]
       = [0xAA, 0x55, 0x01, 0x00, 0x00, 0x01, 0x01]
   \<and> parse_frame [0xAA, 0x55, 0x01, 0x00, 0x00, 0x01, 0x01] = (Some (1, []), [0x01], [])"
  by (simp add: build_frame_def pack_2sBH_def bytes_of_int_def pf_eval flip_bit_eq_xor)

section \<open>Claims about the session controller\<close>

text \<open>
  C7 (as the code has it). On a connected tool, and for an MP3 source or a PCM source
  whose frame rate, channel count and sample width are not zero, \<open>play_audio\<close> writes
  the set-format and start-play frames, then one audio-data frame for each fixed-size
  chunk of the source bytes, in order, then the stop-play frame. The chunk size is 512
  bytes for PCM and 1024 bytes for MP3. The chunks concatenated give the source bytes
  back; there are as many as the length divided by the chunk size, rounded up. For a
  PCM source of 2049 bytes the chunks have 512, 512, 512, 512 and 1 bytes.
\<close>

theorem play_audio_sends_chunks:
  assumes conn: "serial st = Some ws"
    and fmt: "la_audio_format la = AUDIO_FORMAT_PCM \<and> 0 < la_framerate la * la_channels la * la_sample_width la
              \<or> la_audio_format la = AUDIO_FORMAT_MP3"
    and cs: "chunk_size = (if la_audio_format la = AUDIO_FORMAT_MP3 then 1024 else 512)"
  shows "\<exists>st' setfmt startp fs stopp.
      play_audio st (Some la) reads = Inr st'
      \<and> serial st' = Some (ws @ [setfmt, startp] @ fs @ [stopp])
      \<and> build_frame CMD_SET_FORMAT [word_of_int (la_audio_format la)] = Inr setfmt
      \<and> build_frame CMD_START_PLAY [] = Inr startp
      \<and> build_frame CMD_STOP_PLAY [] = Inr stopp
      \<and> list_all2 (\<lambda>f c. build_frame CMD_AUDIO_DATA c = Inr f) fs
           (chunk_list (la_frames la) chunk_size)
      \<and> concat (chunk_list (la_frames la) chunk_size) = la_frames la
      \<and> length fs = (length (la_frames la) + chunk_size - 1) div chunk_size
      \<and> (la_audio_format la = AUDIO_FORMAT_PCM \<and> length (la_frames la) = 2049 \<longrightarrow>
           map length (chunk_list (la_frames la) chunk_size) = [512, 512, 512, 512, 1])
      \<and> (la_audio_format la = AUDIO_FORMAT_MP3 \<longrightarrow>
           length fs = (length (la_frames la) + 1023) div 1024
           \<and> length (la_frames la) \<le> length fs * 1024
           \<and> length fs * 1024 < length (la_frames la) + 1024)"
proof -
  have pos: "0 < chunk_size" "chunk_size < 65536"
    using cs by simp_all
  have tag: "bytes_of_int (la_audio_format la) = Inr [word_of_int (la_audio_format la)]"
    using fmt by (auto simp: bytes_of_int_def AUDIO_FORMAT_PCM_def AUDIO_FORMAT_MP3_def)
  have nz: "\<not> (la_audio_format la \<noteq> AUDIO_FORMAT_MP3
              \<and> la_framerate la * la_channels la * la_sample_width la = 0)"
    using fmt by auto
  obtain setfmt where setfmt:
    "build_frame CMD_SET_FORMAT [word_of_int (la_audio_format la)] = Inr setfmt"
    using build_frame_ok [of CMD_SET_FORMAT "[word_of_int (la_audio_format la)]"]
    by (auto simp: CMD_SET_FORMAT_def)
  obtain startp where startp: "build_frame CMD_START_PLAY [] = Inr startp"
    using build_frame_ok [of CMD_START_PLAY "[]"] by (auto simp: CMD_START_PLAY_def)
  obtain stopp where stopp: "build_frame CMD_STOP_PLAY [] = Inr stopp"
    using build_frame_ok [of CMD_STOP_PLAY "[]"] by (auto simp: CMD_STOP_PLAY_def)
  let ?st2 = "print ((print st [PlayInfo])\<lparr>running := True\<rparr>)
                [FormatSet (la_audio_format la = AUDIO_FORMAT_MP3)]"
  have s2: "serial ?st2 = Some ws"
    using conn by (simp add: print_def)
  let ?st3 = "?st2\<lparr>serial := Some (ws @ [setfmt])\<rparr>"
  have e3: "send_frame ?st2 CMD_SET_FORMAT [word_of_int (la_audio_format la)] = Inr (True, ?st3)"
    using s2 setfmt by (rule send_frame_connected)
  have s3: "serial ?st3 = Some (ws @ [setfmt])"
    by simp
  let ?st4 = "?st3\<lparr>serial := Some ((ws @ [setfmt]) @ [startp])\<rparr>"
  have e4: "send_frame ?st3 CMD_START_PLAY [] = Inr (True, ?st4)"
    using s3 startp by (rule send_frame_connected)
  let ?st5 = "print ?st4 [SendingAudio]"
  let ?total = "(length (la_frames la) + chunk_size - 1) div chunk_size"
  have s5: "serial ?st5 = Some (ws @ [setfmt, startp])"
    by (simp add: print_def)
  from send_chunks_from_start [OF pos s5, of "la_frames la" ?total] obtain st6 fs where
    e6: "send_chunks ?st5 (la_frames la) chunk_size ?total 0 = Inr st6"
    and s6: "serial st6 = Some ((ws @ [setfmt, startp]) @ fs)"
    and fs: "list_all2 (\<lambda>f c. build_frame CMD_AUDIO_DATA c = Inr f) fs
               (chunk_list (la_frames la) chunk_size)"
    by blast
  let ?st7 = "print st6 [SendDone]"
  have s7: "serial ?st7 = Some ((ws @ [setfmt, startp]) @ fs)"
    using s6 by (simp add: print_def)
  let ?st8 = "?st7\<lparr>serial := Some (((ws @ [setfmt, startp]) @ fs) @ [stopp])\<rparr>"
  have e8: "send_frame ?st7 CMD_STOP_PLAY [] = Inr (True, ?st8)"
    using s7 stopp by (rule send_frame_connected)
  let ?st9 = "(rx_loop ?st8 reads)\<lparr>running := False\<rparr>"
  have run: "play_audio st (Some la) reads = Inr ?st9"
    using nz tag e3 e4 e6 e8
    by (simp add: play_audio_def Let_def cs [symmetric] del: send_chunks.simps)
  have "serial (rx_loop ?st8 reads) = serial ?st8"
    using rx_extends_rx_loop [of ?st8 reads] by (simp add: rx_extends_def)
  then have s9: "serial ?st9 = Some (ws @ [setfmt, startp] @ fs @ [stopp])"
    by simp
  have cc: "concat (chunk_list (la_frames la) chunk_size) = la_frames la"
    using pos(1) by (rule concat_chunk_list)
  have lf: "length fs = ?total"
    using list_all2_lengthD [OF fs] by (simp add: chunk_list_def)
  have pcm: "la_audio_format la = AUDIO_FORMAT_PCM \<and> length (la_frames la) = 2049 \<longrightarrow>
           map length (chunk_list (la_frames la) chunk_size) = [512, 512, 512, 512, 1]"
    using cs chunk_list_2049 [of "la_frames la"]
    by (auto simp: AUDIO_FORMAT_PCM_def AUDIO_FORMAT_MP3_def)
  have mp3: "la_audio_format la = AUDIO_FORMAT_MP3 \<longrightarrow>
           length fs = (length (la_frames la) + 1023) div 1024
           \<and> length (la_frames la) \<le> length fs * 1024
           \<and> length fs * 1024 < length (la_frames la) + 1024"
    using lf cs by auto
  show ?thesis
  proof (intro exI conjI)
    show "play_audio st (Some la) reads = Inr ?st9"
      by (rule run)
    show "serial ?st9 = Some (ws @ [setfmt, startp] @ fs @ [stopp])"
      by (rule s9)
  qed (use setfmt startp stopp fs cc lf pcm mp3 in blast)+
qed

theorem play_audio_sends_chunks_witness:
  "\<exists>st' setfmt startp fs stopp.
      play_audio connected_tool
        (Some \<lparr>la_frames = replicate 2049 0x5A, la_framerate = 8000, la_sample_width = 2,
                la_channels = 1, la_audio_format = AUDIO_FORMAT_PCM\<rparr>) [] = Inr st'
      \<and> serial st' = Some ([setfmt, startp] @ fs @ [stopp])
      \<and> length fs = 5
      \<and> list_all2 (\<lambda>f c. build_frame CMD_AUDIO_DATA c = Inr f) fs
           (chunk_list (replicate 2049 0x5A) 512)
      \<and> map length (chunk_list (replicate 2049 0x5A) 512) = [512, 512, 512, 512, 1]"
proof -
  define la where "la = \<lparr>la_frames = replicate 2049 (0x5A :: byte), la_framerate = 8000,
     la_sample_width = 2, la_channels = 1, la_audio_format = AUDIO_FORMAT_PCM\<rparr>"
  have la: "la_audio_format la = AUDIO_FORMAT_PCM" "la_frames la = replicate 2049 0x5A"
    "la_framerate la * la_channels la * la_sample_width la = 16000"
    by (simp_all add: la_def)
  have conn: "serial connected_tool = Some []"
    by (simp add: connected_tool_def new_tool_def)
  have fmt: "la_audio_format la = AUDIO_FORMAT_PCM
        \<and> 0 < la_framerate la * la_channels la * la_sample_width la
      \<or> la_audio_format la = AUDIO_FORMAT_MP3"
    by (simp add: la)
  have cs: "512 = (if la_audio_format la = AUDIO_FORMAT_MP3 then 1024 else 512 :: nat)"
    by (simp add: la AUDIO_FORMAT_PCM_def AUDIO_FORMAT_MP3_def)
  have n: "length (la_frames la) = 2049"
    by (simp add: la)
  from play_audio_sends_chunks [OF conn fmt cs, of "[]"] obtain st' setfmt startp fs stopp where
    r: "play_audio connected_tool (Some la) [] = Inr st'"
       "serial st' = Some ([] @ [setfmt, startp] @ fs @ [stopp])"
       "list_all2 (\<lambda>f c. build_frame CMD_AUDIO_DATA c = Inr f) fs (chunk_list (la_frames la) 512)"
       "length fs = (length (la_frames la) + 512 - 1) div 512"
       "la_audio_format la = AUDIO_FORMAT_PCM \<and> length (la_frames la) = 2049 \<longrightarrow>
           map length (chunk_list (la_frames la) 512) = [512, 512, 512, 512, 1]"
    by (elim exE conjE) (rule that, assumption+)
  have f5: "length fs = 5"
    using r(4) n by simp
  have ml: "map length (chunk_list (replicate 2049 0x5A) 512) = [512, 512, 512, 512, 1]"
    using r(5) n la(1,2) by simp
  have ser: "serial st' = Some ([setfmt, startp] @ fs @ [stopp])"
    using r(2) by simp
  have enc: "list_all2 (\<lambda>f c. build_frame CMD_AUDIO_DATA c = Inr f) fs
      (chunk_list (replicate 2049 0x5A) 512)"
    using r(3) la(2) by simp
  have run: "play_audio connected_tool
        (Some \<lparr>la_frames = replicate 2049 0x5A, la_framerate = 8000, la_sample_width = 2,
                la_channels = 1, la_audio_format = AUDIO_FORMAT_PCM\<rparr>) [] = Inr st'"
    using r(1) by (simp add: la_def)
  show ?thesis
  proof (intro exI conjI)
    show "play_audio connected_tool
        (Some \<lparr>la_frames = replicate 2049 0x5A, la_framerate = 8000, la_sample_width = 2,
                la_channels = 1, la_audio_format = AUDIO_FORMAT_PCM\<rparr>) [] = Inr st'"
      by (rule run)
    show "serial st' = Some ([setfmt, startp] @ fs @ [stopp])"
      by (rule ser)
    show "length fs = 5"
      by (rule f5)
    show "list_all2 (\<lambda>f c. build_frame CMD_AUDIO_DATA c = Inr f) fs
      (chunk_list (replicate 2049 0x5A) 512)"
      by (rule enc)
    show "map length (chunk_list (replicate 2049 0x5A) 512) = [512, 512, 512, 512, 1]"
      by (rule ml)
  qed
qed

text \<open>
  C7 as stated fails on two inputs. A WAV file whose header gives the frame rate \<open>0\<close>
  is loaded as a PCM source; the line that reports its duration divides by
  \<open>framerate * channels * sample_width\<close>, and the operation ends with a
  ZeroDivisionError before any frame is written. On a tool without an open port
  \<open>send_frame\<close> returns \<open>False\<close> and writes nothing: the operation runs to its end
  and no audio-data frame is sent.
\<close>

theorem play_audio_no_frames_counterexample:
  "play_audio connected_tool
     (Some \<lparr>la_frames = replicate 2049 0x5A, la_framerate = 0, la_sample_width = 2,
             la_channels = 1, la_audio_format = AUDIO_FORMAT_PCM\<rparr>) []
     = Inl ZeroDivisionError
   \<and> map_sum id serial
       (play_audio new_tool
         (Some \<lparr>la_frames = replicate 2049 0x5A, la_framerate = 8000, la_sample_width = 2,
                 la_channels = 1, la_audio_format = AUDIO_FORMAT_PCM\<rparr>) [])
     = Inr None"
proof -
  have a: "play_audio connected_tool
     (Some \<lparr>la_frames = replicate 2049 0x5A, la_framerate = 0, la_sample_width = 2,
             la_channels = 1, la_audio_format = AUDIO_FORMAT_PCM\<rparr>) []
     = Inl ZeroDivisionError"
    by (simp add: play_audio_def AUDIO_FORMAT_PCM_def AUDIO_FORMAT_MP3_def)
  have closed: "serial st = None \<Longrightarrow>
      \<exists>st'. send_chunks st frames chunk_size total_chunks i = Inr st' \<and> serial st' = None"
    for st frames chunk_size total_chunks i
  proof (induction st frames chunk_size total_chunks i rule: send_chunks.induct)
    case (1 st frames chunk_size total_chunks i)
    show ?case
    proof (cases "0 < chunk_size \<and> i < length frames")
      case True
      have s: "send_frame st CMD_AUDIO_DATA (slice frames i (i + chunk_size)) = Inr (False, st)"
        using "1.prems" by (simp add: send_frame_def)
      have "serial (print st [PlayProgress (i div chunk_size + 1) total_chunks]) = None"
        using "1.prems" by (simp add: print_def)
      from "1.IH" [OF True s refl this] obtain st' where
        "send_chunks (print st [PlayProgress (i div chunk_size + 1) total_chunks])
           frames chunk_size total_chunks (i + chunk_size) = Inr st'" "serial st' = None"
        by blast
      then show ?thesis
        using True s by (subst send_chunks.simps) simp
    next
      case False
      then show ?thesis
        using "1.prems" by (subst send_chunks.simps) auto
    qed
  qed
  let ?la = "\<lparr>la_frames = replicate 2049 (0x5A :: byte), la_framerate = 8000,
     la_sample_width = 2, la_channels = 1, la_audio_format = AUDIO_FORMAT_PCM\<rparr>"
  let ?st4 = "print (print ((print new_tool [PlayInfo])\<lparr>running := True\<rparr>) [FormatSet False])
     [SendingAudio]"
  have "serial ?st4 = None"
    by (simp add: print_def new_tool_def)
  from closed [OF this, of "replicate 2049 0x5A" 512 5 0] obtain st6 where
    st6: "send_chunks ?st4 (replicate 2049 0x5A) 512 5 0 = Inr st6" "serial st6 = None"
    by blast
  have "serial (rx_loop ((print st6 [SendDone])) []) = None"
    using st6(2) by (simp add: rx_loop_def print_def)
  then have b: "map_sum id serial (play_audio new_tool (Some ?la) []) = Inr None"
    using st6
    by (simp add: play_audio_def Let_def bytes_of_int_def send_frame_def new_tool_def
        print_def AUDIO_FORMAT_PCM_def AUDIO_FORMAT_MP3_def del: send_chunks.simps)
  show ?thesis
    using a b by simp
qed




end
